theory Spec2Isabelle
  imports Main "HOL-Library.Word"
begin

section \<open>The request objects of yc_uring.c\<close>

text \<open>
  The completion-based relay keeps one heap block per asynchronous operation. The
  kernel hands the block's pointer back with the completion, and the dispatcher reads
  the block's header to learn what has finished.

  Integers are C \<open>int\<close>s. The dispatcher only compares them and counts from 0 to 128,
  so no arithmetic can wrap and they are modelled as \<open>int\<close>.
\<close>

datatype ycr_kind_t = YCR_KIND_ACCEPT | YCR_KIND_READ | YCR_KIND_WRITE | YCR_KIND_CLOSE

text \<open>
  A pointer returned by \<open>malloc\<close> is the identity of the block it names. Identities are
  handed out in increasing order and never reused, so a dangling pointer stays
  recognisable after \<open>free\<close>.
\<close>

type_synonym addr = nat

type_synonym byte = "8 word"

text \<open>A byte of a freshly allocated block is indeterminate: \<open>None\<close>.\<close>

type_synonym buffer = "byte option list"

abbreviation NUM_CONNS :: int where
  "NUM_CONNS \<equiv> 128"

abbreviation QUEUE_DEPTH :: int where
  "QUEUE_DEPTH \<equiv> 256"

text \<open>\<open>sizeof(req->ycr_iobuf)\<close>, the \<open>char[1024]\<close> inside a read/write request.\<close>

abbreviation IOBUF_SIZE :: int where
  "IOBUF_SIZE \<equiv> 1024"

text \<open>\<open>sizeof(struct sockaddr_in)\<close>.\<close>

abbreviation SOCKADDR_IN_SIZE :: nat where
  "SOCKADDR_IN_SIZE \<equiv> 16"

record yc_request_t =
  ycr_event :: ycr_kind_t
  ycr_fd :: int

text \<open>
  \<open>iov_base\<close> names the block whose \<open>ycr_iobuf\<close> the vector points at; \<open>iov_len\<close> is the
  number of bytes to transfer.
\<close>

record iovec =
  iov_base :: addr
  iov_len :: int

text \<open>
  The three structs, each starting with the \<open>yc_request_t\<close> header:
  \<open>yc_request_t\<close> alone, \<open>yc_io_request_t\<close> (header, \<open>ycr_iovec\<close>, \<open>ycr_iobuf\<close>) and
  \<open>yc_accept_request_t\<close> (header, \<open>ycr_addr\<close>, \<open>ycr_addrlen\<close>).
\<close>

datatype block =
    Request yc_request_t
  | Io_request yc_request_t iovec buffer
  | Accept_request yc_request_t buffer nat

text \<open>The cast \<open>(yc_request_t *) cqe->user_data\<close>: read the header of any block.\<close>

fun hdr :: "block \<Rightarrow> yc_request_t" where
  "hdr (Request h) = h"
| "hdr (Io_request h v b) = h"
| "hdr (Accept_request h a n) = h"

section \<open>The submission ring\<close>

datatype io_op = OP_ACCEPT | OP_READV | OP_WRITEV | OP_CLOSE

text \<open>
  One submission queue entry: the operation, the descriptor it acts on, and the block
  attached with \<open>io_uring_sqe_set_data\<close>. The pointer argument of an accept
  (\<open>&req->ycr_addr\<close>) or of a readv/writev (\<open>&req->ycr_iovec\<close>) is always a field of
  that same block.
\<close>

datatype sqe = Sqe (sqe_op: io_op) (sqe_fd: int) (sqe_user_data: addr)

text \<open>One completion queue entry: \<open>cqe->user_data\<close> and \<open>cqe->res\<close>.\<close>

record io_uring_cqe =
  cqe_user_data :: addr
  cqe_res :: int

section \<open>Program state\<close>

text \<open>
  \<open>conns\<close> is the array \<open>int conns[NUM_CONNS]\<close>; \<open>heap\<close> maps every live block to its
  contents; \<open>next_block\<close> is the identity the next \<open>malloc\<close> returns; \<open>ring\<close> lists, oldest
  first, every entry handed to the kernel by \<open>io_uring_submit\<close>.

  \<open>malloc\<close> and \<open>io_uring_get_sqe\<close> are taken to succeed, as the source takes them to
  (it checks neither; every entry is submitted as soon as it is prepared, so the
  submission queue of \<open>QUEUE_DEPTH\<close> entries never holds more than one). Console output
  is not part of the state.
\<close>

record state =
  conns :: "int list"
  heap :: "addr \<rightharpoonup> block"
  next_block :: addr
  ring :: "sqe list"

datatype fault = Invalid_pointer | Index_out_of_bounds | Copy_out_of_bounds

definition malloc :: "block \<Rightarrow> state \<Rightarrow> addr \<times> state" where
  "malloc b s =
     (next_block s,
      s\<lparr>heap := (heap s)(next_block s \<mapsto> b), next_block := Suc (next_block s)\<rparr>)"

definition yc_req_new :: "ycr_kind_t \<Rightarrow> int \<Rightarrow> state \<Rightarrow> addr \<times> state" where
  "yc_req_new event fd s = malloc (Request \<lparr>ycr_event = event, ycr_fd = fd\<rparr>) s"

definition yc_io_req_new :: "ycr_kind_t \<Rightarrow> int \<Rightarrow> state \<Rightarrow> addr \<times> state" where
  "yc_io_req_new event fd s =
     malloc (Io_request \<lparr>ycr_event = event, ycr_fd = fd\<rparr>
               \<lparr>iov_base = next_block s, iov_len = IOBUF_SIZE\<rparr>
               (replicate (nat IOBUF_SIZE) None)) s"

definition yc_accept_req_new :: "int \<Rightarrow> state \<Rightarrow> addr \<times> state" where
  "yc_accept_req_new fd s =
     malloc (Accept_request \<lparr>ycr_event = YCR_KIND_ACCEPT, ycr_fd = fd\<rparr>
               (replicate SOCKADDR_IN_SIZE None) SOCKADDR_IN_SIZE) s"

definition yc_req_free :: "addr \<Rightarrow> state \<Rightarrow> state" where
  "yc_req_free req s = s\<lparr>heap := (heap s)(req := None)\<rparr>"

text \<open>
  \<open>io_uring_get_sqe\<close>, \<open>io_uring_prep_*\<close>, \<open>io_uring_sqe_set_data\<close> and
  \<open>io_uring_submit\<close>, which the source always calls together.
\<close>

definition submit :: "sqe \<Rightarrow> state \<Rightarrow> state" where
  "submit e s = s\<lparr>ring := ring s @ [e]\<rparr>"

text \<open>The assignment \<open>conns[i] = v\<close>; an index outside the array is undefined behaviour.\<close>

definition conns_store :: "int \<Rightarrow> int \<Rightarrow> state \<Rightarrow> fault + state" where
  "conns_store i v s =
     (if 0 \<le> i \<and> i < NUM_CONNS then Inr (s\<lparr>conns := (conns s)[nat i := v]\<rparr>)
      else Inl Index_out_of_bounds)"

text \<open>The read \<open>conns[i]\<close>, with the same bound.\<close>

definition conns_load :: "int \<Rightarrow> state \<Rightarrow> fault + int" where
  "conns_load i s =
     (if 0 \<le> i \<and> i < NUM_CONNS then Inr (conns s ! nat i) else Inl Index_out_of_bounds)"

text \<open>\<open>memcpy(dst, src, n)\<close> for \<open>n\<close> within both buffers.\<close>

definition memcpy :: "buffer \<Rightarrow> buffer \<Rightarrow> nat \<Rightarrow> buffer" where
  "memcpy dst src n = take n src @ drop n dst"

section \<open>The completion dispatcher\<close>

text \<open>
  The body of the fan-out loop for one destination that passed the test: allocate a
  write request, copy \<open>res\<close> bytes of the read buffer into it, set its length, submit.
\<close>

definition fanout_write :: "addr \<Rightarrow> int \<Rightarrow> int \<Rightarrow> state \<Rightarrow> fault + state" where
  "fanout_write rreq res dest_fd s =
     (let (wreq, s1) = yc_io_req_new YCR_KIND_WRITE dest_fd s in
      case (heap s1 wreq, heap s1 rreq) of
        (Some (Io_request wh wv wbuf), Some (Io_request rh rv rbuf)) \<Rightarrow>
          if res \<le> IOBUF_SIZE then
            Inr (submit (Sqe OP_WRITEV dest_fd wreq)
                   (s1\<lparr>heap := (heap s1)(wreq \<mapsto>
                          Io_request wh (wv\<lparr>iov_len := res\<rparr>) (memcpy wbuf rbuf (nat res)))\<rparr>))
          else Inl Copy_out_of_bounds
      | _ \<Rightarrow> Inl Invalid_pointer)"

text \<open>\<open>for (int dest_fd = 0; dest_fd < NUM_CONNS; dest_fd++)\<close>, entered at \<open>dest_fd\<close>.\<close>

function fanout :: "addr \<Rightarrow> int \<Rightarrow> int \<Rightarrow> int \<Rightarrow> state \<Rightarrow> fault + state" where
  "fanout rreq fd res dest_fd s =
     (if dest_fd < NUM_CONNS then
        (case conns_load dest_fd s of
           Inl f \<Rightarrow> Inl f
         | Inr c \<Rightarrow>
             if c \<noteq> 0 \<and> dest_fd \<noteq> fd then
               (case fanout_write rreq res dest_fd s of
                  Inl f \<Rightarrow> Inl f
                | Inr s' \<Rightarrow> fanout rreq fd res (dest_fd + 1) s')
             else fanout rreq fd res (dest_fd + 1) s)
      else Inr s)"
  by pat_completeness auto
termination
  by (relation "measure (\<lambda>(rreq, fd, res, dest_fd, s). nat (NUM_CONNS - dest_fd))") auto

declare fanout.simps [simp del]

text \<open>
  The error and end-of-stream branches of a read, and the error branch of a write:
  free the request, submit a close with a minimal request, clear \<open>conns[fd]\<close>.
\<close>

definition disconnect :: "addr \<Rightarrow> int \<Rightarrow> state \<Rightarrow> fault + state" where
  "disconnect req fd s =
     (let s1 = yc_req_free req s;
          (clreq, s2) = yc_req_new YCR_KIND_CLOSE fd s1;
          s3 = submit (Sqe OP_CLOSE fd clreq) s2
      in conns_store fd 0 s3)"

definition on_accept :: "addr \<Rightarrow> int \<Rightarrow> int \<Rightarrow> state \<Rightarrow> fault + state" where
  "on_accept areq fd res s =
     (case heap s areq of
        Some (Accept_request h a n) \<Rightarrow>
          if res < 0 then Inr (submit (Sqe OP_ACCEPT fd areq) s)
          else
            (case conns_store res 1 s of
               Inl f \<Rightarrow> Inl f
             | Inr s1 \<Rightarrow>
                 let (rreq, s2) = yc_io_req_new YCR_KIND_READ res s1;
                     s3 = submit (Sqe OP_READV res rreq) s2
                 in Inr (submit (Sqe OP_ACCEPT fd areq) s3))
      | _ \<Rightarrow> Inl Invalid_pointer)"

definition on_read :: "addr \<Rightarrow> int \<Rightarrow> int \<Rightarrow> state \<Rightarrow> fault + state" where
  "on_read rreq fd res s =
     (case heap s rreq of
        Some (Io_request h v b) \<Rightarrow>
          if res < 0 then disconnect rreq fd s
          else if res = 0 then disconnect rreq fd s
          else
            (case fanout rreq fd res 0 s of
               Inl f \<Rightarrow> Inl f
             | Inr s1 \<Rightarrow> Inr (submit (Sqe OP_READV fd rreq) s1))
      | _ \<Rightarrow> Inl Invalid_pointer)"

definition on_write :: "addr \<Rightarrow> int \<Rightarrow> int \<Rightarrow> state \<Rightarrow> fault + state" where
  "on_write req fd res s =
     (if res < 0 then disconnect req fd s
      else Inr (yc_req_free req s))"

text \<open>
  The body of the main loop for one completion: fetch the request behind
  \<open>cqe->user_data\<close>, read \<open>fd\<close> and \<open>res\<close>, and switch on the kind.
\<close>

definition dispatch :: "io_uring_cqe \<Rightarrow> state \<Rightarrow> fault + state" where
  "dispatch cqe s =
     (case heap s (cqe_user_data cqe) of
        None \<Rightarrow> Inl Invalid_pointer
      | Some blk \<Rightarrow>
          (let req = cqe_user_data cqe;
               fd = ycr_fd (hdr blk);
               res = cqe_res cqe
           in case ycr_event (hdr blk) of
                YCR_KIND_ACCEPT \<Rightarrow> on_accept req fd res s
              | YCR_KIND_READ \<Rightarrow> on_read req fd res s
              | YCR_KIND_WRITE \<Rightarrow> on_write req fd res s
              | YCR_KIND_CLOSE \<Rightarrow> Inr (yc_req_free req s)))"

section \<open>The kernel and the main loop\<close>

text \<open>
  The kernel's side of \<open>readv\<close>, which is the server's environment and not its code:
  before a read completes, the kernel has stored the received bytes through the
  request's vector: at most \<open>iov_len\<close> bytes, \<open>res\<close> of them, at the start of the buffer
  \<open>iov_base\<close> points at. (The peer address the kernel stores for an accept is only
  printed, and is not tracked.)
\<close>

definition kernel_store :: "io_uring_cqe \<Rightarrow> byte list \<Rightarrow> state \<Rightarrow> state" where
  "kernel_store cqe bytes s =
     (case heap s (cqe_user_data cqe) of
        Some (Io_request h v b) \<Rightarrow>
          if ycr_event h = YCR_KIND_READ \<and> 0 < cqe_res cqe then
            (case heap s (iov_base v) of
               Some (Io_request h' v' b') \<Rightarrow>
                 let n = min (length bytes) (nat (min (cqe_res cqe) (iov_len v)))
                 in s\<lparr>heap := (heap s)(iov_base v \<mapsto>
                         Io_request h' v' (memcpy b' (map Some bytes) n))\<rparr>
             | _ \<Rightarrow> s)
          else s
      | _ \<Rightarrow> s)"

text \<open>
  What one call of \<open>io_uring_wait_cqe\<close> gives: a negative return value, or a completion
  together with the bytes the kernel stored for it.
\<close>

datatype wait = Wait_failed | Completion io_uring_cqe "byte list"

text \<open>
  How the process ends: \<open>exit\<close> with a code, blocked in \<open>io_uring_wait_cqe\<close> with no
  completion left to arrive, or undefined behaviour.
\<close>

datatype outcome = Exit int | Blocked state | Undefined fault

text \<open>
  The state on entry to the main loop: \<open>conns\<close> zeroed by \<open>memset\<close> and the first accept
  submitted on the server socket.
\<close>

definition init_state :: "int \<Rightarrow> state" where
  "init_state server_fd =
     (let s0 = \<lparr>conns = replicate (nat NUM_CONNS) 0, heap = Map.empty,
                next_block = 0, ring = []\<rparr>;
          (req, s1) = yc_accept_req_new server_fd s0
      in submit (Sqe OP_ACCEPT server_fd req) s1)"

text \<open>\<open>while (io_uring_wait_cqe(&ring, &cqe) >= 0) { ... }\<close>, then \<open>perror\<close> and \<open>exit(1)\<close>.\<close>

fun main_loop :: "state \<Rightarrow> wait list \<Rightarrow> outcome" where
  "main_loop s [] = Blocked s"
| "main_loop s (Wait_failed # ws) = Exit 1"
| "main_loop s (Completion cqe bytes # ws) =
     (case dispatch cqe (kernel_store cqe bytes s) of
        Inl f \<Rightarrow> Undefined f
      | Inr s' \<Rightarrow> main_loop s' ws)"

text \<open>
  What \<open>main\<close> sees of its environment before the loop: \<open>argc\<close>, \<open>atoi(argv[1])\<close>, and
  the return values of \<open>socket\<close>, \<open>setsockopt\<close>, \<open>bind\<close>, \<open>listen\<close> and
  \<open>io_uring_queue_init\<close>.
\<close>

record environment =
  argc :: int
  atoi_argv1 :: int
  socket_ret :: int
  setsockopt_ret :: int
  bind_ret :: int
  listen_ret :: int
  io_uring_queue_init_ret :: int

definition main :: "environment \<Rightarrow> wait list \<Rightarrow> outcome" where
  "main env ws =
     (if argc env < 2 then Exit 1
      else if atoi_argv1 env \<le> 0 then Exit 1
      else if socket_ret env < 0 then Exit 1
      else if setsockopt_ret env < 0 then Exit 1
      else if bind_ret env < 0 then Exit 1
      else if listen_ret env < 0 then Exit 1
      else if io_uring_queue_init_ret env < 0 then Exit 1
      else main_loop (init_state (socket_ret env)) ws)"

section \<open>Runs of completions\<close>

text \<open>The loop body applied to a sequence of completions, none of the waits failing.\<close>

fun run :: "state \<Rightarrow> (io_uring_cqe \<times> byte list) list \<Rightarrow> fault + state" where
  "run s [] = Inr s"
| "run s ((cqe, bytes) # es) =
     (case dispatch cqe (kernel_store cqe bytes s) of
        Inl f \<Rightarrow> Inl f
      | Inr s' \<Rightarrow> run s' es)"

text \<open>The kind of request a completion refers to, if its pointer is live.\<close>

definition kind_of :: "state \<Rightarrow> io_uring_cqe \<Rightarrow> ycr_kind_t option" where
  "kind_of s cqe = map_option (\<lambda>blk. ycr_event (hdr blk)) (heap s (cqe_user_data cqe))"

text \<open>The descriptor stored in that request.\<close>

definition fd_of :: "state \<Rightarrow> io_uring_cqe \<Rightarrow> int option" where
  "fd_of s cqe = map_option (\<lambda>blk. ycr_fd (hdr blk)) (heap s (cqe_user_data cqe))"

text \<open>The kinds of the completions a run dispatches, in order.\<close>

fun kinds_dispatched :: "state \<Rightarrow> (io_uring_cqe \<times> byte list) list \<Rightarrow> ycr_kind_t list" where
  "kinds_dispatched s [] = []"
| "kinds_dispatched s ((cqe, bytes) # es) =
     (case kind_of (kernel_store cqe bytes s) cqe of
        None \<Rightarrow> []
      | Some k \<Rightarrow>
          (case dispatch cqe (kernel_store cqe bytes s) of
             Inl f \<Rightarrow> []
           | Inr s' \<Rightarrow> k # kinds_dispatched s' es))"

text \<open>A connection is active when its entry of \<open>conns\<close> is true.\<close>

definition active :: "state \<Rightarrow> int \<Rightarrow> bool" where
  "active s d \<longleftrightarrow> 0 \<le> d \<and> d < NUM_CONNS \<and> conns s ! nat d \<noteq> 0"

text \<open>The entries submitted between two states of the ring.\<close>

definition submitted :: "state \<Rightarrow> state \<Rightarrow> sqe list" where
  "submitted s s' = drop (length (ring s)) (ring s')"

text \<open>The vector and the buffer of a read/write request.\<close>

definition vec_of :: "state \<Rightarrow> addr \<Rightarrow> iovec option" where
  "vec_of s p = (case heap s p of Some (Io_request h v b) \<Rightarrow> Some v | _ \<Rightarrow> None)"

definition iobuf_of :: "state \<Rightarrow> addr \<Rightarrow> buffer option" where
  "iobuf_of s p = (case heap s p of Some (Io_request h v b) \<Rightarrow> Some b | _ \<Rightarrow> None)"

text \<open>
  The bytes a submitted readv/writev entry names: the kernel follows the vector of the
  attached request to the buffer at \<open>iov_base\<close> and takes \<open>iov_len\<close> bytes.
\<close>

definition payload :: "state \<Rightarrow> sqe \<Rightarrow> buffer option" where
  "payload s e =
     (case vec_of s (sqe_user_data e) of
        None \<Rightarrow> None
      | Some v \<Rightarrow> map_option (take (nat (iov_len v))) (iobuf_of s (iov_base v)))"

section \<open>Well-formed states\<close>

text \<open>
  Every block is what its allocator made it: a minimal request is a close, a read/write
  request has its vector pointing at its own buffer of 1024 bytes, and the descriptors
  of read, write and close requests index \<open>conns\<close>.
\<close>

fun block_ok :: "addr \<Rightarrow> block \<Rightarrow> bool" where
  "block_ok p (Request h) =
     (ycr_event h = YCR_KIND_CLOSE \<and> 0 \<le> ycr_fd h \<and> ycr_fd h < NUM_CONNS)"
| "block_ok p (Io_request h v b) =
     ((ycr_event h = YCR_KIND_READ \<or> ycr_event h = YCR_KIND_WRITE) \<and>
      0 \<le> ycr_fd h \<and> ycr_fd h < NUM_CONNS \<and>
      iov_base v = p \<and> 0 \<le> iov_len v \<and> iov_len v \<le> IOBUF_SIZE \<and>
      length b = nat IOBUF_SIZE)"
| "block_ok p (Accept_request h a n) = (ycr_event h = YCR_KIND_ACCEPT)"

definition wf_state :: "state \<Rightarrow> bool" where
  "wf_state s \<longleftrightarrow>
     length (conns s) = nat NUM_CONNS \<and>
     (\<forall>p blk. heap s p = Some blk \<longrightarrow> p < next_block s \<and> block_ok p blk)"

section \<open>Example runs\<close>

text \<open>
  The server socket is descriptor 3 and the first accept request is block 0. Two
  clients connect as descriptors 5 and 6 (read requests 1 and 2); then 6 sends "hi",
  which is relayed to 5 through write request 3; then that write fails with \<open>EPIPE\<close>
  (close request 4), and after it the read on 5 completes with three bytes.
\<close>

type_synonym events = "(io_uring_cqe \<times> byte list) list"

definition two_clients :: events where
  "two_clients =
     [(\<lparr>cqe_user_data = 0, cqe_res = 5\<rparr>, []), (\<lparr>cqe_user_data = 0, cqe_res = 6\<rparr>, [])]"

definition relayed :: events where
  "relayed = two_clients @ [(\<lparr>cqe_user_data = 2, cqe_res = 2\<rparr>, [104, 105])]"

definition write_failed :: events where
  "write_failed = relayed @ [(\<lparr>cqe_user_data = 3, cqe_res = - 32\<rparr>, [])]"

definition late_read :: events where
  "late_read = write_failed @ [(\<lparr>cqe_user_data = 1, cqe_res = 3\<rparr>, [121, 111, 33])]"

text \<open>A third accept fails with \<open>EMFILE\<close> after the two clients connected.\<close>

definition accept_failed :: events where
  "accept_failed = two_clients @ [(\<lparr>cqe_user_data = 0, cqe_res = - 24\<rparr>, [])]"

text \<open>A client connects as descriptor 5 and closes without sending anything.\<close>

definition connect_then_close :: events where
  "connect_then_close =
     [(\<lparr>cqe_user_data = 0, cqe_res = 5\<rparr>, []), (\<lparr>cqe_user_data = 1, cqe_res = 0\<rparr>, [])]"

text \<open>The state a run from the initial state ends in (the initial state if it faults).\<close>

definition state_after :: "events \<Rightarrow> state" where
  "state_after es = (case run (init_state 3) es of Inr s \<Rightarrow> s | Inl f \<Rightarrow> init_state 3)"

text \<open>The state after one more completion (unchanged if dispatching it faults).\<close>

definition step_after :: "io_uring_cqe \<Rightarrow> state \<Rightarrow> state" where
  "step_after c s = (case dispatch c s of Inr s' \<Rightarrow> s' | Inl f \<Rightarrow> s)"

section \<open>Closed forms of the dispatcher's effects\<close>

text \<open>
  The block a fan-out write leaves in the heap, the state after one such write and
  after a list of them, the block an accepted connection's read starts with, and the
  destinations the fan-out loop selects. The lemmas below prove that the dispatcher
  computes exactly these.
\<close>

definition write_block :: "int \<Rightarrow> buffer \<Rightarrow> int \<Rightarrow> addr \<Rightarrow> block" where
  "write_block r b d p =
     Io_request \<lparr>ycr_event = YCR_KIND_WRITE, ycr_fd = d\<rparr> \<lparr>iov_base = p, iov_len = r\<rparr>
       (memcpy (replicate (nat IOBUF_SIZE) None) b (nat r))"

definition write_to :: "int \<Rightarrow> buffer \<Rightarrow> int \<Rightarrow> state \<Rightarrow> state" where
  "write_to r b d s =
     s\<lparr>heap := (heap s)(next_block s \<mapsto> write_block r b d (next_block s)),
       next_block := Suc (next_block s),
       ring := ring s @ [Sqe OP_WRITEV d (next_block s)]\<rparr>"

fun writes_to :: "int \<Rightarrow> buffer \<Rightarrow> int list \<Rightarrow> state \<Rightarrow> state" where
  "writes_to r b [] s = s"
| "writes_to r b (d # ds) s = writes_to r b ds (write_to r b d s)"

definition read_block :: "int \<Rightarrow> addr \<Rightarrow> block" where
  "read_block fd p =
     Io_request \<lparr>ycr_event = YCR_KIND_READ, ycr_fd = fd\<rparr> \<lparr>iov_base = p, iov_len = IOBUF_SIZE\<rparr>
       (replicate (nat IOBUF_SIZE) None)"

definition targets :: "state \<Rightarrow> int \<Rightarrow> int list" where
  "targets s fd = filter (\<lambda>d. conns s ! nat d \<noteq> 0 \<and> d \<noteq> fd) [0..NUM_CONNS - 1]"

section \<open>Properties\<close>

subsection \<open>The dispatcher, case by case\<close>

lemma fanout_write_ok:
  assumes "heap s rreq = Some (Io_request h v b)" "rreq \<noteq> next_block s" "res \<le> IOBUF_SIZE"
  shows "fanout_write rreq res d s = Inr (write_to res b d s)"
  using assms
  by (simp add: fanout_write_def yc_io_req_new_def malloc_def submit_def write_to_def write_block_def)

lemma write_to_simps [simp]:
  "conns (write_to r b d s) = conns s"
  "next_block (write_to r b d s) = Suc (next_block s)"
  "ring (write_to r b d s) = ring s @ [Sqe OP_WRITEV d (next_block s)]"
  "heap (write_to r b d s) p = (if p = next_block s then Some (write_block r b d p) else heap s p)"
  by (simp_all add: write_to_def)

lemma fanout_eq:
  assumes "heap s rreq = Some (Io_request h v b)" "rreq < next_block s" "res \<le> IOBUF_SIZE" "0 \<le> d"
  shows "fanout rreq fd res d s =
         Inr (writes_to res b (filter (\<lambda>x. conns s ! nat x \<noteq> 0 \<and> x \<noteq> fd) [d..NUM_CONNS - 1]) s)"
  using assms
proof (induction rreq fd res d s rule: fanout.induct)
  case (1 rreq fd res dest_fd s)
  show ?case
  proof (cases "dest_fd < NUM_CONNS")
    case False
    then show ?thesis by (subst fanout.simps) simp
  next
    case lt: True
    then have up: "[dest_fd..NUM_CONNS - 1] = dest_fd # [dest_fd + 1..NUM_CONNS - 1]"
      by (simp add: upto_rec1)
    have ld: "conns_load dest_fd s = Inr (conns s ! nat dest_fd)"
      using lt "1.prems" by (simp add: conns_load_def)
    show ?thesis
    proof (cases "conns s ! nat dest_fd \<noteq> 0 \<and> dest_fd \<noteq> fd")
      case True
      have w: "fanout_write rreq res dest_fd s = Inr (write_to res b dest_fd s)"
        using "1.prems" by (intro fanout_write_ok) auto
      have "fanout rreq fd res (dest_fd + 1) (write_to res b dest_fd s) =
            Inr (writes_to res b (filter (\<lambda>x. conns s ! nat x \<noteq> 0 \<and> x \<noteq> fd) [dest_fd + 1..NUM_CONNS - 1]) (write_to res b dest_fd s))"
        using "1.IH"(1)[OF lt ld True w] "1.prems" by simp
      then show ?thesis
        using lt ld True w up by (subst fanout.simps) simp
    next
      case False
      have "fanout rreq fd res (dest_fd + 1) s =
            Inr (writes_to res b (filter (\<lambda>x. conns s ! nat x \<noteq> 0 \<and> x \<noteq> fd) [dest_fd + 1..NUM_CONNS - 1]) s)"
        using "1.IH"(2)[OF lt ld False] "1.prems" by simp
      then show ?thesis
        using lt ld False up by (subst fanout.simps) auto
    qed
  qed
qed

lemma writes_to_conns [simp]: "conns (writes_to r b ds s) = conns s"
  by (induction ds arbitrary: s) simp_all

lemma writes_to_next_block [simp]: "next_block (writes_to r b ds s) = next_block s + length ds"
  by (induction ds arbitrary: s) simp_all

lemma writes_to_ring:
  "ring (writes_to r b ds s) =
   ring s @ map (\<lambda>(d, p). Sqe OP_WRITEV d p) (zip ds [next_block s..<next_block s + length ds])"
proof (induction ds arbitrary: s)
  case Nil
  then show ?case by simp
next
  case (Cons d ds)
  have "[next_block s..<next_block s + length (d # ds)] =
        next_block s # [Suc (next_block s)..<Suc (next_block s) + length ds]"
    by (simp add: upt_rec)
  then show ?case using Cons.IH [of "write_to r b d s"] by simp
qed

lemma writes_to_heap:
  "heap (writes_to r b ds s) p =
   (if next_block s \<le> p \<and> p < next_block s + length ds
    then Some (write_block r b (ds ! (p - next_block s)) p) else heap s p)"
proof (induction ds arbitrary: s)
  case Nil
  then show ?case by auto
next
  case (Cons d ds)
  show ?case
    using Cons.IH [of "write_to r b d s"]
    by (auto simp: nth_Cons' Suc_diff_le)
qed

lemma inv_malloc:
  assumes "wf_state s" "block_ok (next_block s) b"
  shows "wf_state (snd (malloc b s))" "fst (malloc b s) = next_block s"
  using assms by (auto simp: wf_state_def malloc_def less_Suc_eq)

lemma inv_free: "wf_state s \<Longrightarrow> wf_state (yc_req_free p s)"
  by (auto simp: wf_state_def yc_req_free_def)

lemma inv_submit: "wf_state s \<Longrightarrow> wf_state (submit e s)"
  by (auto simp: wf_state_def submit_def)

lemma inv_conns_store: "wf_state s \<Longrightarrow> conns_store i v s = Inr s' \<Longrightarrow> wf_state s'"
  by (auto simp: wf_state_def conns_store_def split: if_splits)

lemma inv_write_to:
  assumes "wf_state s" "0 \<le> d" "d < NUM_CONNS" "0 \<le> r" "r \<le> IOBUF_SIZE" "length b = nat IOBUF_SIZE"
  shows "wf_state (write_to r b d s)"
  using assms by (auto simp: wf_state_def write_block_def memcpy_def less_Suc_eq)

lemma inv_writes_to:
  assumes "wf_state s" "\<forall>d\<in>set ds. 0 \<le> d \<and> d < NUM_CONNS" "0 \<le> r" "r \<le> IOBUF_SIZE"
    "length b = nat IOBUF_SIZE"
  shows "wf_state (writes_to r b ds s)"
  using assms by (induction ds arbitrary: s) (simp_all add: inv_write_to)

lemma inv_disconnect: "wf_state s \<Longrightarrow> disconnect p fd s = Inr s' \<Longrightarrow> wf_state s'"
  unfolding disconnect_def yc_req_new_def Let_def
  by (auto simp: wf_state_def yc_req_free_def malloc_def submit_def conns_store_def less_Suc_eq
           split: if_splits prod.splits)

lemma inv_init: "wf_state (init_state fd)"
  by (simp add: wf_state_def init_state_def yc_accept_req_new_def malloc_def submit_def)

lemma disconnect_eq:
  "disconnect p fd s =
     (if 0 \<le> fd \<and> fd < NUM_CONNS then
        Inr (s\<lparr>conns := (conns s)[nat fd := 0],
               heap := (heap s)(p := None,
                         next_block s \<mapsto> Request \<lparr>ycr_event = YCR_KIND_CLOSE, ycr_fd = fd\<rparr>),
               next_block := Suc (next_block s),
               ring := ring s @ [Sqe OP_CLOSE fd (next_block s)]\<rparr>)
      else Inl Index_out_of_bounds)"
  by (simp add: disconnect_def yc_req_free_def yc_req_new_def malloc_def submit_def
        conns_store_def Let_def)

lemma fanout_write_big:
  assumes "heap s rreq = Some (Io_request h v b)" "rreq \<noteq> next_block s" "IOBUF_SIZE < res"
  shows "fanout_write rreq res d s = Inl Copy_out_of_bounds"
  using assms by (simp add: fanout_write_def yc_io_req_new_def malloc_def)

lemma fanout_big:
  assumes "heap s rreq = Some (Io_request h v b)" "rreq < next_block s" "IOBUF_SIZE < res" "0 \<le> d"
  shows "fanout rreq fd res d s =
         (if filter (\<lambda>x. conns s ! nat x \<noteq> 0 \<and> x \<noteq> fd) [d..NUM_CONNS - 1] = []
          then Inr s else Inl Copy_out_of_bounds)"
  using assms
proof (induction rreq fd res d s rule: fanout.induct)
  case (1 rreq fd res dest_fd s)
  show ?case
  proof (cases "dest_fd < NUM_CONNS")
    case False
    then show ?thesis by (subst fanout.simps) simp
  next
    case lt: True
    then have up: "[dest_fd..NUM_CONNS - 1] = dest_fd # [dest_fd + 1..NUM_CONNS - 1]"
      by (simp add: upto_rec1)
    have ld: "conns_load dest_fd s = Inr (conns s ! nat dest_fd)"
      using lt "1.prems" by (simp add: conns_load_def)
    show ?thesis
    proof (cases "conns s ! nat dest_fd \<noteq> 0 \<and> dest_fd \<noteq> fd")
      case True
      have w: "fanout_write rreq res dest_fd s = Inl Copy_out_of_bounds"
        using "1.prems" by (intro fanout_write_big) auto
      show ?thesis
        using lt ld True w up by (subst fanout.simps) simp
    next
      case False
      have "fanout rreq fd res (dest_fd + 1) s =
            (if filter (\<lambda>x. conns s ! nat x \<noteq> 0 \<and> x \<noteq> fd) [dest_fd + 1..NUM_CONNS - 1] = []
             then Inr s else Inl Copy_out_of_bounds)"
        using "1.IH"(2)[OF lt ld False] "1.prems" by simp
      then show ?thesis
        using lt ld False up by (subst fanout.simps) auto
    qed
  qed
qed

lemma dispatch_accept:
  assumes "heap s (cqe_user_data c) = Some (Accept_request h a n)" "ycr_event h = YCR_KIND_ACCEPT"
  shows "dispatch c s =
     (if cqe_res c < 0 then
        Inr (s\<lparr>ring := ring s @ [Sqe OP_ACCEPT (ycr_fd h) (cqe_user_data c)]\<rparr>)
      else if cqe_res c < NUM_CONNS then
        Inr (s\<lparr>conns := (conns s)[nat (cqe_res c) := 1],
               heap := (heap s)(next_block s \<mapsto> read_block (cqe_res c) (next_block s)),
               next_block := Suc (next_block s),
               ring := ring s @ [Sqe OP_READV (cqe_res c) (next_block s),
                                 Sqe OP_ACCEPT (ycr_fd h) (cqe_user_data c)]\<rparr>)
      else Inl Index_out_of_bounds)"
  using assms
  by (simp add: dispatch_def on_accept_def submit_def conns_store_def yc_io_req_new_def
        malloc_def read_block_def Let_def)

lemma dispatch_read:
  assumes "heap s (cqe_user_data c) = Some (Io_request h v b)" "ycr_event h = YCR_KIND_READ"
    "cqe_user_data c < next_block s"
  shows "dispatch c s =
     (if cqe_res c \<le> 0 then disconnect (cqe_user_data c) (ycr_fd h) s
      else if cqe_res c \<le> IOBUF_SIZE then
        Inr (submit (Sqe OP_READV (ycr_fd h) (cqe_user_data c))
               (writes_to (cqe_res c) b (targets s (ycr_fd h)) s))
      else if targets s (ycr_fd h) = [] then
        Inr (submit (Sqe OP_READV (ycr_fd h) (cqe_user_data c)) s)
      else Inl Copy_out_of_bounds)"
proof -
  let ?p = "cqe_user_data c" and ?r = "cqe_res c" and ?fd = "ycr_fd h"
  have d: "dispatch c s = on_read ?p ?fd ?r s"
    using assms by (simp add: dispatch_def)
  show ?thesis
  proof (cases "?r \<le> 0")
    case True
    then show ?thesis using assms d by (auto simp: on_read_def)
  next
    case pos: False
    show ?thesis
    proof (cases "?r \<le> IOBUF_SIZE")
      case True
      have "fanout ?p ?fd ?r 0 s = Inr (writes_to ?r b (targets s ?fd) s)"
        unfolding targets_def using assms True by (intro fanout_eq) auto
      then show ?thesis using assms d pos True by (simp add: on_read_def)
    next
      case False
      have "fanout ?p ?fd ?r 0 s =
            (if targets s ?fd = [] then Inr s else Inl Copy_out_of_bounds)"
        unfolding targets_def using assms False by (intro fanout_big) auto
      then show ?thesis using assms d pos False by (simp add: on_read_def)
    qed
  qed
qed

lemma dispatch_write:
  assumes "heap s (cqe_user_data c) = Some (Io_request h v b)" "ycr_event h = YCR_KIND_WRITE"
  shows "dispatch c s =
     (if cqe_res c < 0 then disconnect (cqe_user_data c) (ycr_fd h) s
      else Inr (yc_req_free (cqe_user_data c) s))"
  using assms by (simp add: dispatch_def on_write_def)

lemma dispatch_close:
  assumes "heap s (cqe_user_data c) = Some (Request h)" "ycr_event h = YCR_KIND_CLOSE"
  shows "dispatch c s = Inr (yc_req_free (cqe_user_data c) s)"
  using assms by (simp add: dispatch_def)

lemma dispatch_dangling:
  "heap s (cqe_user_data c) = None \<Longrightarrow> dispatch c s = Inl Invalid_pointer"
  by (simp add: dispatch_def)

lemma targets_range: "d \<in> set (targets s fd) \<Longrightarrow> 0 \<le> d \<and> d < NUM_CONNS"
  by (auto simp: targets_def)

lemma targets_set:
  "set (targets s fd) = {d. 0 \<le> d \<and> d < NUM_CONNS \<and> conns s ! nat d \<noteq> 0 \<and> d \<noteq> fd}"
  by (auto simp: targets_def)

lemma targets_sorted: "sorted (targets s fd)" "distinct (targets s fd)"
  by (simp_all add: targets_def sorted_wrt_filter)

lemma inv_block:
  assumes "wf_state s" "heap s p = Some blk"
  shows "p < next_block s" "block_ok p blk"
  using assms by (auto simp: wf_state_def)

lemma inv_dispatch:
  assumes "wf_state s" "dispatch c s = Inr s'"
  shows "wf_state s'"
proof (cases "heap s (cqe_user_data c)")
  case None
  then show ?thesis using assms by (simp add: dispatch_dangling)
next
  case (Some blk)
  note ok = inv_block [OF assms(1) Some]
  show ?thesis
  proof (cases blk)
    case (Request h)
    then have "dispatch c s = Inr (yc_req_free (cqe_user_data c) s)"
      using Some ok by (simp add: dispatch_close)
    then show ?thesis
      using assms inv_free [of s "cqe_user_data c"] by simp
  next
    case (Accept_request h a n)
    then have "dispatch c s = Inr s' \<Longrightarrow> wf_state s'"
      using Some ok assms(1)
      by (auto simp: dispatch_accept wf_state_def read_block_def less_Suc_eq split: if_splits)
    then show ?thesis using assms by simp
  next
    case (Io_request h v b)
    show ?thesis
    proof (cases "ycr_event h = YCR_KIND_READ")
      case True
      have w: "wf_state (writes_to (cqe_res c) b (targets s (ycr_fd h)) s)"
        if "0 < cqe_res c" "cqe_res c \<le> IOBUF_SIZE"
        using that assms(1) ok Io_request by (intro inv_writes_to) (auto simp: targets_range)
      show ?thesis
        using assms Some ok Io_request True w
        by (auto simp: dispatch_read inv_submit split: if_splits dest: inv_disconnect)
    next
      case False
      then have "ycr_event h = YCR_KIND_WRITE" using ok Io_request by simp
      then show ?thesis
        using assms Some Io_request
        by (auto simp: dispatch_write inv_free split: if_splits dest: inv_disconnect)
    qed
  qed
qed

lemma inv_kernel_store:
  assumes "wf_state s"
  shows "wf_state (kernel_store c bytes s)"
proof (cases "heap s (cqe_user_data c)")
  case None
  then show ?thesis using assms by (simp add: kernel_store_def)
next
  case (Some blk)
  show ?thesis
  proof (cases blk)
    case (Io_request h v b)
    show ?thesis
    proof (cases "heap s (iov_base v)")
      case None
      then show ?thesis using assms Some Io_request by (simp add: kernel_store_def)
    next
      case tgt: (Some blk')
      note ok = inv_block [OF assms tgt]
      show ?thesis
      proof (cases blk')
        case io': (Io_request h' v' b')
        have "iov_len v \<le> IOBUF_SIZE"
          using inv_block [OF assms Some] Io_request by simp
        then have "min (length bytes) (nat (min (cqe_res c) (iov_len v))) \<le> 1024"
          by linarith
        then show ?thesis
          using assms Some Io_request tgt ok io'
          by (auto simp: kernel_store_def wf_state_def memcpy_def Let_def)
      qed (use assms Some Io_request tgt in \<open>simp_all add: kernel_store_def\<close>)
    qed
  qed (use assms Some in \<open>simp_all add: kernel_store_def\<close>)
qed

lemma inv_run: "wf_state s \<Longrightarrow> run s es = Inr s' \<Longrightarrow> wf_state s'"
proof (induction es arbitrary: s)
  case Nil
  then show ?case by simp
next
  case (Cons e es)
  obtain c bytes where e: "e = (c, bytes)" by (cases e)
  from Cons.prems(2) obtain s1 where
    s1: "dispatch c (kernel_store c bytes s) = Inr s1" and r: "run s1 es = Inr s'"
    by (auto simp: e split: sum.splits)
  have "wf_state s1"
    using inv_dispatch [OF inv_kernel_store [OF Cons.prems(1)] s1] .
  then show ?case using Cons.IH r by blast
qed

subsection \<open>What a live request looks like\<close>

lemma kind_of_SomeD:
  assumes "kind_of s c = Some k"
  obtains blk where "heap s (cqe_user_data c) = Some blk" "ycr_event (hdr blk) = k"
  using assms by (auto simp: kind_of_def)

lemma kind_accept:
  assumes "wf_state s" "kind_of s c = Some YCR_KIND_ACCEPT"
  obtains h a n where "heap s (cqe_user_data c) = Some (Accept_request h a n)"
    "ycr_event h = YCR_KIND_ACCEPT"
proof -
  from assms(2) obtain blk where b: "heap s (cqe_user_data c) = Some blk"
    "ycr_event (hdr blk) = YCR_KIND_ACCEPT" by (rule kind_of_SomeD)
  with inv_block [OF assms(1) b(1)] that show thesis by (cases blk) auto
qed

lemma kind_close:
  assumes "wf_state s" "kind_of s c = Some YCR_KIND_CLOSE"
  obtains h where "heap s (cqe_user_data c) = Some (Request h)"
    "ycr_event h = YCR_KIND_CLOSE" "0 \<le> ycr_fd h" "ycr_fd h < NUM_CONNS"
proof -
  from assms(2) obtain blk where b: "heap s (cqe_user_data c) = Some blk"
    "ycr_event (hdr blk) = YCR_KIND_CLOSE" by (rule kind_of_SomeD)
  with inv_block [OF assms(1) b(1)] that show thesis by (cases blk) auto
qed

lemma kind_io:
  assumes "wf_state s" "kind_of s c = Some k" "k = YCR_KIND_READ \<or> k = YCR_KIND_WRITE"
  obtains h v b where "heap s (cqe_user_data c) = Some (Io_request h v b)"
    "ycr_event h = k" "0 \<le> ycr_fd h" "ycr_fd h < NUM_CONNS" "iov_base v = cqe_user_data c"
    "length b = nat IOBUF_SIZE" "cqe_user_data c < next_block s"
proof -
  from assms(2) obtain blk where b: "heap s (cqe_user_data c) = Some blk"
    "ycr_event (hdr blk) = k" by (rule kind_of_SomeD)
  with inv_block [OF assms(1) b(1)] assms(3) that show thesis by (cases blk) auto
qed

lemma submitted_append: "ring s' = ring s @ es \<Longrightarrow> submitted s s' = es"
  by (simp add: submitted_def)

subsection \<open>The state after each kind of completion\<close>

lemma kind_cases:
  assumes "wf_state s" "dispatch c s = Inr s'"
  obtains
    (acc) h a n where "heap s (cqe_user_data c) = Some (Accept_request h a n)" and "ycr_event h = YCR_KIND_ACCEPT" and "kind_of s c = Some YCR_KIND_ACCEPT" and "fd_of s c = Some (ycr_fd h)"
  | (rd) h v b where "heap s (cqe_user_data c) = Some (Io_request h v b)" and "ycr_event h = YCR_KIND_READ" and "kind_of s c = Some YCR_KIND_READ" and "fd_of s c = Some (ycr_fd h)" and "cqe_user_data c < next_block s" and "length b = nat IOBUF_SIZE" and "0 \<le> ycr_fd h" and "ycr_fd h < NUM_CONNS"
  | (wr) h v b where "heap s (cqe_user_data c) = Some (Io_request h v b)" and "ycr_event h = YCR_KIND_WRITE" and "kind_of s c = Some YCR_KIND_WRITE" and "fd_of s c = Some (ycr_fd h)" and "0 \<le> ycr_fd h" and "ycr_fd h < NUM_CONNS"
  | (cl) h where "heap s (cqe_user_data c) = Some (Request h)" and "ycr_event h = YCR_KIND_CLOSE" and "kind_of s c = Some YCR_KIND_CLOSE" and "fd_of s c = Some (ycr_fd h)"
proof (cases "heap s (cqe_user_data c)")
  case None
  then show ?thesis using assms(2) by (simp add: dispatch_dangling)
next
  case (Some blk)
  note ok = inv_block [OF assms(1) Some]
  show ?thesis
  proof (cases blk)
    case (Request h)
    then show ?thesis using Some ok cl by (simp add: kind_of_def fd_of_def)
  next
    case (Accept_request h a n)
    then show ?thesis using Some ok acc by (simp add: kind_of_def fd_of_def)
  next
    case (Io_request h v b)
    then show ?thesis using Some ok rd wr
      by (cases "ycr_event h = YCR_KIND_READ") (auto simp: kind_of_def fd_of_def)
  qed
qed

lemma writes_entries:
  assumes "e \<in> set (map (\<lambda>(d, p). Sqe OP_WRITEV d p) (zip ds [n..<n + length ds]))"
  shows "sqe_op e = OP_WRITEV" "n \<le> sqe_user_data e" "sqe_user_data e < n + length ds"
    "sqe_fd e \<in> set ds" "sqe_fd e = ds ! (sqe_user_data e - n)"
  using assms by (auto simp: set_zip)

lemma writes_fds:
  "map sqe_fd (map (\<lambda>(d, p). Sqe OP_WRITEV d p) (zip ds [n..<n + length ds])) = ds"
  by (simp add: comp_def case_prod_unfold)

lemma writes_user_data:
  "map sqe_user_data (map (\<lambda>(d, p). Sqe OP_WRITEV d p) (zip ds [n..<n + length ds])) =
   [n..<n + length ds]"
  by (simp add: comp_def case_prod_unfold)

lemma read_pos_state:
  fixes s c h
  defines "ds \<equiv> (if cqe_res c \<le> IOBUF_SIZE then targets s (ycr_fd h) else [])"
  assumes "wf_state s" "heap s (cqe_user_data c) = Some (Io_request h v b)"
    "ycr_event h = YCR_KIND_READ" "0 < cqe_res c" "dispatch c s = Inr s'"
  shows "ring s' = ring s @ map (\<lambda>(d, p). Sqe OP_WRITEV d p)
                         (zip ds [next_block s..<next_block s + length ds]) @
               [Sqe OP_READV (ycr_fd h) (cqe_user_data c)]"
    and "conns s' = conns s"
    and "next_block s' = next_block s + length ds"
    and "heap s' p =
       (if next_block s \<le> p \<and> p < next_block s + length ds
        then Some (write_block (cqe_res c) b (ds ! (p - next_block s)) p) else heap s p)"
    and "ds = targets s (ycr_fd h)"
proof -
  have lt: "cqe_user_data c < next_block s" using inv_block [OF assms(2,3)] by simp
  have d: "dispatch c s =
     (if cqe_res c \<le> IOBUF_SIZE then
        Inr (submit (Sqe OP_READV (ycr_fd h) (cqe_user_data c))
               (writes_to (cqe_res c) b (targets s (ycr_fd h)) s))
      else if targets s (ycr_fd h) = [] then
        Inr (submit (Sqe OP_READV (ycr_fd h) (cqe_user_data c)) s)
      else Inl Copy_out_of_bounds)"
    using dispatch_read [OF assms(3,4) lt] assms(5) by simp
  have e: "targets s (ycr_fd h) = []" if "\<not> cqe_res c \<le> IOBUF_SIZE"
  proof (rule ccontr)
    assume "targets s (ycr_fd h) \<noteq> []"
    then have "dispatch c s = Inl Copy_out_of_bounds" using d that by simp
    then show False using assms(6) by simp
  qed
  then show dt: "ds = targets s (ycr_fd h)" by (simp add: ds_def)
  have s': "s' = submit (Sqe OP_READV (ycr_fd h) (cqe_user_data c))
                  (writes_to (cqe_res c) b ds s)"
  proof (cases "cqe_res c \<le> IOBUF_SIZE")
    case True
    then show ?thesis using d assms(6) by (simp add: ds_def)
  next
    case False
    then have "dispatch c s = Inr (submit (Sqe OP_READV (ycr_fd h) (cqe_user_data c)) s)"
      using d e by simp
    then show ?thesis using False assms(6) by (simp add: ds_def)
  qed
  show "ring s' = ring s @ map (\<lambda>(d, p). Sqe OP_WRITEV d p)
                         (zip ds [next_block s..<next_block s + length ds]) @
               [Sqe OP_READV (ycr_fd h) (cqe_user_data c)]"
    unfolding s' by (simp add: submit_def writes_to_ring)
  show "conns s' = conns s" unfolding s' by (simp add: submit_def)
  show "next_block s' = next_block s + length ds" unfolding s' by (simp add: submit_def)
  show "heap s' p =
       (if next_block s \<le> p \<and> p < next_block s + length ds
        then Some (write_block (cqe_res c) b (ds ! (p - next_block s)) p) else heap s p)"
    unfolding s' by (simp add: submit_def writes_to_heap)
qed

lemma accept_state:
  assumes "heap s (cqe_user_data c) = Some (Accept_request h a n)"
    "ycr_event h = YCR_KIND_ACCEPT" "dispatch c s = Inr s'"
  shows "(cqe_res c < 0 \<and>
          s' = s\<lparr>ring := ring s @ [Sqe OP_ACCEPT (ycr_fd h) (cqe_user_data c)]\<rparr>) \<or>
         (0 \<le> cqe_res c \<and> cqe_res c < NUM_CONNS \<and>
          s' = s\<lparr>conns := (conns s)[nat (cqe_res c) := 1],
                 heap := (heap s)(next_block s \<mapsto> read_block (cqe_res c) (next_block s)),
                 next_block := Suc (next_block s),
                 ring := ring s @ [Sqe OP_READV (cqe_res c) (next_block s),
                                   Sqe OP_ACCEPT (ycr_fd h) (cqe_user_data c)]\<rparr>)"
proof (cases "cqe_res c < 0")
  case True
  then show ?thesis using assms(3) unfolding dispatch_accept [OF assms(1,2)] by simp
next
  case nonneg: False
  show ?thesis
  proof (cases "cqe_res c < NUM_CONNS")
    case True
    then show ?thesis using nonneg assms(3) unfolding dispatch_accept [OF assms(1,2)] by simp
  next
    case False
    then show ?thesis using nonneg assms(3) unfolding dispatch_accept [OF assms(1,2)] by simp
  qed
qed

lemma disconnect_state:
  assumes "disconnect p fd s = Inr s'"
  shows "0 \<le> fd" "fd < NUM_CONNS"
    "s' = s\<lparr>conns := (conns s)[nat fd := 0],
            heap := (heap s)(p := None,
                      next_block s \<mapsto> Request \<lparr>ycr_event = YCR_KIND_CLOSE, ycr_fd = fd\<rparr>),
            next_block := Suc (next_block s),
            ring := ring s @ [Sqe OP_CLOSE fd (next_block s)]\<rparr>"
proof -
  have r: "0 \<le> fd \<and> fd < NUM_CONNS"
    using assms unfolding disconnect_eq by (simp split: if_splits)
  then show "0 \<le> fd" "fd < NUM_CONNS" by simp_all
  show "s' = s\<lparr>conns := (conns s)[nat fd := 0],
            heap := (heap s)(p := None,
                      next_block s \<mapsto> Request \<lparr>ycr_event = YCR_KIND_CLOSE, ycr_fd = fd\<rparr>),
            next_block := Suc (next_block s),
            ring := ring s @ [Sqe OP_CLOSE fd (next_block s)]\<rparr>"
    using assms r unfolding disconnect_eq by simp
qed

lemma writes_filter_old:
  assumes "p < n"
  shows "filter (\<lambda>e. sqe_user_data e = p)
           (map (\<lambda>(d, p). Sqe OP_WRITEV d p) (zip ds [n..<n + length ds])) = []"
  unfolding filter_empty_conv
proof (intro ballI notI)
  fix e assume "e \<in> set (map (\<lambda>(d, p). Sqe OP_WRITEV d p) (zip ds [n..<n + length ds]))"
    and "sqe_user_data e = p"
  with writes_entries(2) [of e ds n] assms show False by simp
qed

lemma rearm_or_release_accept:
  assumes "wf_state s" "dispatch c s = Inr s'" "kind_of s c = Some k" "fd_of s c = Some fd"
    "heap s (cqe_user_data c) = Some (Accept_request h a n)" "ycr_event h = YCR_KIND_ACCEPT"
  shows "ring s' = ring s @ submitted s s' \<and>
         (if k = YCR_KIND_ACCEPT then
            heap s' (cqe_user_data c) = heap s (cqe_user_data c) \<and>
            filter (\<lambda>e. sqe_user_data e = cqe_user_data c) (submitted s s') =
              [Sqe OP_ACCEPT fd (cqe_user_data c)]
          else if k = YCR_KIND_READ \<and> 0 < cqe_res c then
            heap s' (cqe_user_data c) = heap s (cqe_user_data c) \<and>
            filter (\<lambda>e. sqe_user_data e = cqe_user_data c) (submitted s s') =
              [Sqe OP_READV fd (cqe_user_data c)]
          else
            heap s' (cqe_user_data c) = None \<and>
            filter (\<lambda>e. sqe_user_data e = cqe_user_data c) (submitted s s') = [])"
proof -
  have lt: "cqe_user_data c < next_block s" using inv_block [OF assms(1) assms(5)] by simp
  have k: "k = YCR_KIND_ACCEPT" "fd = ycr_fd h" using assms by (simp_all add: kind_of_def fd_of_def)
  from accept_state [OF assms(5,6) assms(2)] show ?thesis
  proof (elim disjE conjE)
    assume "s' = s\<lparr>ring := ring s @ [Sqe OP_ACCEPT (ycr_fd h) (cqe_user_data c)]\<rparr>"
    then show ?thesis using k by (simp add: submitted_def)
  next
    assume "s' = s\<lparr>conns := (conns s)[nat (cqe_res c) := 1],
                 heap := (heap s)(next_block s \<mapsto> read_block (cqe_res c) (next_block s)),
                 next_block := Suc (next_block s),
                 ring := ring s @ [Sqe OP_READV (cqe_res c) (next_block s),
                                   Sqe OP_ACCEPT (ycr_fd h) (cqe_user_data c)]\<rparr>"
    then show ?thesis using k lt by (simp add: submitted_def)
  qed
qed

lemma rearm_or_release_read:
  assumes "wf_state s" "dispatch c s = Inr s'" "kind_of s c = Some k" "fd_of s c = Some fd"
    "heap s (cqe_user_data c) = Some (Io_request h v b)" "ycr_event h = YCR_KIND_READ"
  shows "ring s' = ring s @ submitted s s' \<and>
         (if k = YCR_KIND_ACCEPT then
            heap s' (cqe_user_data c) = heap s (cqe_user_data c) \<and>
            filter (\<lambda>e. sqe_user_data e = cqe_user_data c) (submitted s s') =
              [Sqe OP_ACCEPT fd (cqe_user_data c)]
          else if k = YCR_KIND_READ \<and> 0 < cqe_res c then
            heap s' (cqe_user_data c) = heap s (cqe_user_data c) \<and>
            filter (\<lambda>e. sqe_user_data e = cqe_user_data c) (submitted s s') =
              [Sqe OP_READV fd (cqe_user_data c)]
          else
            heap s' (cqe_user_data c) = None \<and>
            filter (\<lambda>e. sqe_user_data e = cqe_user_data c) (submitted s s') = [])"
proof -
  have lt: "cqe_user_data c < next_block s" using inv_block [OF assms(1) assms(5)] by simp
  have k: "k = YCR_KIND_READ" "fd = ycr_fd h" using assms by (simp_all add: kind_of_def fd_of_def)
  show ?thesis
  proof (cases "0 < cqe_res c")
    case True
    define ds where "ds = (if cqe_res c \<le> IOBUF_SIZE then targets s (ycr_fd h) else [])"
    note rp = read_pos_state [OF assms(1) assms(5,6) True assms(2), folded ds_def]
    note r = rp(1) and hp = rp(4)
    have f: "filter (\<lambda>e. sqe_user_data e = cqe_user_data c)
            (map (\<lambda>(d, p). Sqe OP_WRITEV d p)
               (zip ds [next_block s..<next_block s + length ds])) = []"
      using lt by (rule writes_filter_old)
    have hh: "heap s' (cqe_user_data c) = heap s (cqe_user_data c)"
      using hp lt by simp
    have sub: "submitted s s' = map (\<lambda>(d, p). Sqe OP_WRITEV d p)
                         (zip ds [next_block s..<next_block s + length ds]) @
               [Sqe OP_READV (ycr_fd h) (cqe_user_data c)]"
      using r by (simp add: submitted_def)
    have rr: "ring s' = ring s @ submitted s s'" using r sub by simp
    have ff: "filter (\<lambda>e. sqe_user_data e = cqe_user_data c) (submitted s s') =
              [Sqe OP_READV fd (cqe_user_data c)]"
      unfolding sub using f k by simp
    show ?thesis using rr ff hh k True by simp
  next
    case False
    then have "disconnect (cqe_user_data c) (ycr_fd h) s = Inr s'"
      using dispatch_read [OF assms(5,6) lt] assms(2) by simp
    from disconnect_state(3) [OF this]
    show ?thesis using k False lt by (simp add: submitted_def)
  qed
qed

lemma rearm_or_release_write:
  assumes "wf_state s" "dispatch c s = Inr s'" "kind_of s c = Some k" "fd_of s c = Some fd"
    "heap s (cqe_user_data c) = Some (Io_request h v b)" "ycr_event h = YCR_KIND_WRITE"
  shows "ring s' = ring s @ submitted s s' \<and>
         (if k = YCR_KIND_ACCEPT then
            heap s' (cqe_user_data c) = heap s (cqe_user_data c) \<and>
            filter (\<lambda>e. sqe_user_data e = cqe_user_data c) (submitted s s') =
              [Sqe OP_ACCEPT fd (cqe_user_data c)]
          else if k = YCR_KIND_READ \<and> 0 < cqe_res c then
            heap s' (cqe_user_data c) = heap s (cqe_user_data c) \<and>
            filter (\<lambda>e. sqe_user_data e = cqe_user_data c) (submitted s s') =
              [Sqe OP_READV fd (cqe_user_data c)]
          else
            heap s' (cqe_user_data c) = None \<and>
            filter (\<lambda>e. sqe_user_data e = cqe_user_data c) (submitted s s') = [])"
proof -
  have lt: "cqe_user_data c < next_block s" using inv_block [OF assms(1) assms(5)] by simp
  have k: "k = YCR_KIND_WRITE" "fd = ycr_fd h" using assms by (simp_all add: kind_of_def fd_of_def)
  show ?thesis
  proof (cases "cqe_res c < 0")
    case True
    then have "disconnect (cqe_user_data c) (ycr_fd h) s = Inr s'"
      using dispatch_write [OF assms(5,6)] assms(2) by simp
    from disconnect_state(3) [OF this]
    show ?thesis using k lt by (simp add: submitted_def)
  next
    case False
    then have "dispatch c s = Inr (yc_req_free (cqe_user_data c) s)"
      using dispatch_write [OF assms(5,6)] by simp
    then have "s' = yc_req_free (cqe_user_data c) s" using assms(2) by simp
    then show ?thesis using k by (simp add: submitted_def yc_req_free_def)
  qed
qed

lemma rearm_or_release_close:
  assumes "wf_state s" "dispatch c s = Inr s'" "kind_of s c = Some k" "fd_of s c = Some fd"
    "heap s (cqe_user_data c) = Some (Request h)" "ycr_event h = YCR_KIND_CLOSE"
  shows "ring s' = ring s @ submitted s s' \<and>
         (if k = YCR_KIND_ACCEPT then
            heap s' (cqe_user_data c) = heap s (cqe_user_data c) \<and>
            filter (\<lambda>e. sqe_user_data e = cqe_user_data c) (submitted s s') =
              [Sqe OP_ACCEPT fd (cqe_user_data c)]
          else if k = YCR_KIND_READ \<and> 0 < cqe_res c then
            heap s' (cqe_user_data c) = heap s (cqe_user_data c) \<and>
            filter (\<lambda>e. sqe_user_data e = cqe_user_data c) (submitted s s') =
              [Sqe OP_READV fd (cqe_user_data c)]
          else
            heap s' (cqe_user_data c) = None \<and>
            filter (\<lambda>e. sqe_user_data e = cqe_user_data c) (submitted s s') = [])"
proof -
  have k: "k = YCR_KIND_CLOSE" using assms by (simp add: kind_of_def)
  have "dispatch c s = Inr (yc_req_free (cqe_user_data c) s)"
    using dispatch_close [OF assms(5,6)] .
  then have "s' = yc_req_free (cqe_user_data c) s" using assms(2) by simp
  then show ?thesis using k by (simp add: submitted_def yc_req_free_def)
qed

subsection \<open>Payloads and buffers\<close>

lemma payload_write_block:
  assumes "heap s (sqe_user_data e) = Some (write_block r b d (sqe_user_data e))"
    "0 \<le> r" "nat r \<le> length b"
  shows "payload s e = Some (take (nat r) b)"
  using assms by (simp add: payload_def vec_of_def iobuf_of_def write_block_def memcpy_def)

lemma targets_active: "set (targets s fd) = {d. active s d \<and> d \<noteq> fd}"
  by (auto simp: targets_set active_def)

lemma wf_own_buffer:
  assumes "wf_state s" "vec_of s q = Some v"
  shows "iov_base v = q"
proof -
  from assms(2) obtain h b where "heap s q = Some (Io_request h v b)"
    by (auto simp: vec_of_def split: option.splits block.splits)
  from inv_block(2) [OF assms(1) this] show ?thesis by simp
qed

lemma wf_iov_len:
  assumes "wf_state s" "vec_of s p = Some v"
  shows "iov_len v \<le> IOBUF_SIZE"
proof -
  from assms(2) obtain h b where "heap s p = Some (Io_request h v b)"
    by (auto simp: vec_of_def split: option.splits block.splits)
  from inv_block(2) [OF assms(1) this] show ?thesis by simp
qed

lemma payload_other_block:
  assumes "wf_state s" "vec_of s (sqe_user_data e) \<noteq> None" "p \<noteq> sqe_user_data e"
  shows "payload (s\<lparr>heap := (heap s)(p := x)\<rparr>) e = payload s e"
proof -
  from assms(2) obtain v where v: "vec_of s (sqe_user_data e) = Some v" by auto
  have b: "iov_base v = sqe_user_data e" by (rule wf_own_buffer [OF assms(1) v])
  have "vec_of (s\<lparr>heap := (heap s)(p := x)\<rparr>) (sqe_user_data e) = Some v"
    using v assms(3) by (simp add: vec_of_def)
  moreover have "iobuf_of (s\<lparr>heap := (heap s)(p := x)\<rparr>) (sqe_user_data e) =
                 iobuf_of s (sqe_user_data e)"
    using assms(3) by (simp add: iobuf_of_def)
  ultimately show ?thesis using v b by (simp add: payload_def)
qed

lemma writes_all_writev:
  "filter (\<lambda>e. sqe_op e = OP_WRITEV)
     (map (\<lambda>(d, p). Sqe OP_WRITEV d p) (zip ds [n..<n + length ds])) =
   map (\<lambda>(d, p). Sqe OP_WRITEV d p) (zip ds [n..<n + length ds])"
  by (simp add: filter_id_conv case_prod_unfold)

subsection \<open>The example runs\<close>

lemma wf_state_after: "wf_state (state_after es)"
proof (cases "run (init_state 3) es")
  case (Inl f)
  then show ?thesis by (simp add: state_after_def inv_init)
next
  case (Inr s)
  then show ?thesis using inv_run [OF inv_init Inr] by (simp add: state_after_def)
qed

lemma run_state_after:
  "\<not> isl (run (init_state 3) es) \<Longrightarrow> run (init_state 3) es = Inr (state_after es)"
  by (cases "run (init_state 3) es") (simp_all add: state_after_def)

lemma dispatch_step_after:
  "\<not> isl (dispatch c s) \<Longrightarrow> dispatch c s = Inr (step_after c s)"
  by (cases "dispatch c s") (simp_all add: step_after_def)

subsection \<open>Runs, the kernel and the main loop\<close>

lemma kernel_store_ring [simp]: "ring (kernel_store c bytes s) = ring s"
  by (simp add: kernel_store_def Let_def split: option.splits block.splits)

lemma kernel_store_conns [simp]: "conns (kernel_store c bytes s) = conns s"
  by (simp add: kernel_store_def Let_def split: option.splits block.splits)

lemma kernel_store_next_block [simp]: "next_block (kernel_store c bytes s) = next_block s"
  by (simp add: kernel_store_def Let_def split: option.splits block.splits)

lemma kernel_store_hdr:
  "map_option hdr (heap (kernel_store c bytes s) p) = map_option hdr (heap s p)"
  by (auto simp: kernel_store_def Let_def split: option.splits block.splits)

lemma kernel_store_kind_of [simp]: "kind_of (kernel_store c bytes s) c' = kind_of s c'"
  using kernel_store_hdr [of c bytes s "cqe_user_data c'"]
  by (cases "heap s (cqe_user_data c')"; cases "heap (kernel_store c bytes s) (cqe_user_data c')")
     (auto simp: kind_of_def)

lemma kernel_store_fd_of [simp]: "fd_of (kernel_store c bytes s) c' = fd_of s c'"
  using kernel_store_hdr [of c bytes s "cqe_user_data c'"]
  by (cases "heap s (cqe_user_data c')"; cases "heap (kernel_store c bytes s) (cqe_user_data c')")
     (auto simp: fd_of_def)

lemma kernel_store_nonpositive: "cqe_res c \<le> 0 \<Longrightarrow> kernel_store c bytes s = s"
  by (simp add: kernel_store_def split: option.splits block.splits)

lemma accepts_writes [simp]:
  "filter (\<lambda>e. sqe_op e = OP_ACCEPT)
     (map (\<lambda>(d, p). Sqe OP_WRITEV d p) (zip ds [n..<n + length ds])) = []"
  by (simp add: filter_empty_conv case_prod_unfold)

lemma accepts_step:
  assumes "wf_state s" "dispatch c s = Inr s'" "kind_of s c = Some k"
  shows "length (filter (\<lambda>e. sqe_op e = OP_ACCEPT) (ring s')) =
         length (filter (\<lambda>e. sqe_op e = OP_ACCEPT) (ring s)) +
         (if k = YCR_KIND_ACCEPT then 1 else 0)"
  using assms(1,2)
proof (cases rule: kind_cases)
  case (acc h a n)
  then have k: "k = YCR_KIND_ACCEPT" using assms(3) by simp
  from accept_state [OF acc(1,2) assms(2)] show ?thesis
  proof (elim disjE conjE)
    assume "s' = s\<lparr>ring := ring s @ [Sqe OP_ACCEPT (ycr_fd h) (cqe_user_data c)]\<rparr>"
    then show ?thesis using k by simp
  next
    assume "s' = s\<lparr>conns := (conns s)[nat (cqe_res c) := 1],
                 heap := (heap s)(next_block s \<mapsto> read_block (cqe_res c) (next_block s)),
                 next_block := Suc (next_block s),
                 ring := ring s @ [Sqe OP_READV (cqe_res c) (next_block s),
                                   Sqe OP_ACCEPT (ycr_fd h) (cqe_user_data c)]\<rparr>"
    then show ?thesis using k by simp
  qed
next
  case (rd h v b)
  then have k: "k = YCR_KIND_READ" using assms(3) by simp
  show ?thesis
  proof (cases "0 < cqe_res c")
    case True
    note rp = read_pos_state(1) [OF assms(1) rd(1,2) True assms(2)]
    show ?thesis unfolding rp using k by simp
  next
    case False
    then have "disconnect (cqe_user_data c) (ycr_fd h) s = Inr s'"
      using dispatch_read [OF rd(1,2,5)] assms(2) by simp
    from disconnect_state(3) [OF this] show ?thesis using k by simp
  qed
next
  case (wr h v b)
  then have k: "k = YCR_KIND_WRITE" using assms(3) by simp
  show ?thesis
  proof (cases "cqe_res c < 0")
    case True
    then have "disconnect (cqe_user_data c) (ycr_fd h) s = Inr s'"
      using dispatch_write [OF wr(1,2)] assms(2) by simp
    from disconnect_state(3) [OF this] show ?thesis using k by simp
  next
    case False
    then have "s' = yc_req_free (cqe_user_data c) s"
      using dispatch_write [OF wr(1,2)] assms(2) by simp
    then show ?thesis using k by (simp add: yc_req_free_def)
  qed
next
  case (cl h)
  then have k: "k = YCR_KIND_CLOSE" using assms(3) by simp
  have "s' = yc_req_free (cqe_user_data c) s"
    using dispatch_close [OF cl(1,2)] assms(2) by simp
  then show ?thesis using k by (simp add: yc_req_free_def)
qed

lemma accepts_run:
  assumes "wf_state s" "run s es = Inr s'"
  shows "length (filter (\<lambda>e. sqe_op e = OP_ACCEPT) (ring s')) =
         length (filter (\<lambda>e. sqe_op e = OP_ACCEPT) (ring s)) +
         length (filter (\<lambda>k. k = YCR_KIND_ACCEPT) (kinds_dispatched s es)) \<and>
         length (kinds_dispatched s es) = length es"
  using assms
proof (induction es arbitrary: s)
  case Nil
  then show ?case by simp
next
  case (Cons e es)
  obtain c bytes where e: "e = (c, bytes)" by (cases e)
  let ?s0 = "kernel_store c bytes s"
  from Cons.prems(2) obtain s1 where
    s1: "dispatch c ?s0 = Inr s1" and r: "run s1 es = Inr s'"
    by (auto simp: e split: sum.splits)
  have w0: "wf_state ?s0" by (rule inv_kernel_store [OF Cons.prems(1)])
  have w1: "wf_state s1" by (rule inv_dispatch [OF w0 s1])
  obtain k where k: "kind_of ?s0 c = Some k"
    using w0 s1 by (cases rule: kind_cases) auto
  note st = accepts_step [OF w0 s1 k]
  note ih = Cons.IH [OF w1 r]
  have kd: "kinds_dispatched s (e # es) = k # kinds_dispatched s1 es"
    using k s1 by (simp add: e)
  show ?case unfolding kd using st ih by simp
qed

lemma main_loop_exit_code: "main_loop s ws = Exit n \<Longrightarrow> n = 1"
  by (induction s ws rule: main_loop.induct) (auto split: sum.splits)

lemma main_loop_exit_iff:
  "main_loop s ws = Exit 1 \<longleftrightarrow>
   (\<exists>pre rest s'. ws = map (\<lambda>(c, b). Completion c b) pre @ Wait_failed # rest \<and>
      run s pre = Inr s')"
proof (induction s ws rule: main_loop.induct)
  case (1 s)
  show ?case by simp
next
  case (2 s ws)
  have "Wait_failed # ws = map (\<lambda>(c, b). Completion c b) [] @ Wait_failed # ws \<and>
        run s [] = Inr s" by simp
  then show ?case by (metis main_loop.simps(2))
next
  case (3 s cqe bytes ws)
  let ?R = "\<lambda>s ws. \<exists>pre rest s'. ws = map (\<lambda>(c, b). Completion c b) pre @ Wait_failed # rest \<and>
      run s pre = Inr s'"
  show ?case
  proof (cases "dispatch cqe (kernel_store cqe bytes s)")
    case (Inl f)
    have "\<not> ?R s (Completion cqe bytes # ws)"
    proof
      assume "?R s (Completion cqe bytes # ws)"
      then obtain pre rest s' where
        p: "Completion cqe bytes # ws = map (\<lambda>(c, b). Completion c b) pre @ Wait_failed # rest"
        and r: "run s pre = Inr s'" by blast
      from p obtain pre' where "pre = (cqe, bytes) # pre'"
        by (cases pre) (auto split: prod.splits)
      with r Inl show False by simp
    qed
    then show ?thesis using Inl by simp
  next
    case (Inr s1)
    have "?R s (Completion cqe bytes # ws) \<longleftrightarrow> ?R s1 ws"
    proof
      assume "?R s (Completion cqe bytes # ws)"
      then obtain pre rest s' where
        p: "Completion cqe bytes # ws = map (\<lambda>(c, b). Completion c b) pre @ Wait_failed # rest"
        and r: "run s pre = Inr s'" by blast
      from p obtain pre' where pre: "pre = (cqe, bytes) # pre'"
        by (cases pre) (auto split: prod.splits)
      then have "ws = map (\<lambda>(c, b). Completion c b) pre' @ Wait_failed # rest"
        using p by simp
      moreover have "run s1 pre' = Inr s'" using r pre Inr by simp
      ultimately show "?R s1 ws" by blast
    next
      assume "?R s1 ws"
      then obtain pre rest s' where
        p: "ws = map (\<lambda>(c, b). Completion c b) pre @ Wait_failed # rest"
        and r: "run s1 pre = Inr s'" by blast
      have "Completion cqe bytes # ws =
            map (\<lambda>(c, b). Completion c b) ((cqe, bytes) # pre) @ Wait_failed # rest"
        using p by simp
      moreover have "run s ((cqe, bytes) # pre) = Inr s'" using r Inr by simp
      ultimately show "?R s (Completion cqe bytes # ws)" by blast
    qed
    then show ?thesis using "3.IH" [OF Inr] Inr by simp
  qed
qed

lemma negative_completion:
  assumes "wf_state s" "kind_of s c \<noteq> None" "cqe_res c < 0"
  shows "\<exists>s'. dispatch c s = Inr s' \<and> (\<forall>d. fd_of s c \<noteq> Some d \<longrightarrow> active s' d = active s d)"
proof -
  from assms(2) obtain blk where blk: "heap s (cqe_user_data c) = Some blk"
    by (auto simp: kind_of_def)
  note ok = inv_block [OF assms(1) blk]
  show ?thesis
  proof (cases blk)
    case (Request h)
    then have "dispatch c s = Inr (yc_req_free (cqe_user_data c) s)"
      using blk ok by (simp add: dispatch_close)
    then show ?thesis by (simp add: active_def yc_req_free_def)
  next
    case (Accept_request h a n)
    then have "dispatch c s =
               Inr (s\<lparr>ring := ring s @ [Sqe OP_ACCEPT (ycr_fd h) (cqe_user_data c)]\<rparr>)"
      using blk ok assms(3) by (simp add: dispatch_accept)
    then show ?thesis by (simp add: active_def)
  next
    case (Io_request h v b)
    have fd: "fd_of s c = Some (ycr_fd h)" using blk Io_request by (simp add: fd_of_def)
    have rng: "0 \<le> ycr_fd h" "ycr_fd h < NUM_CONNS" using ok Io_request by simp_all
    have "dispatch c s = disconnect (cqe_user_data c) (ycr_fd h) s"
    proof (cases "ycr_event h = YCR_KIND_READ")
      case True
      then show ?thesis using blk Io_request ok assms(3) by (simp add: dispatch_read)
    next
      case False
      then have "ycr_event h = YCR_KIND_WRITE" using ok Io_request by simp
      then show ?thesis using blk Io_request assms(3) by (simp add: dispatch_write)
    qed
    then have d: "dispatch c s =
        Inr (s\<lparr>conns := (conns s)[nat (ycr_fd h) := 0],
               heap := (heap s)(cqe_user_data c := None,
                         next_block s \<mapsto> Request \<lparr>ycr_event = YCR_KIND_CLOSE, ycr_fd = ycr_fd h\<rparr>),
               next_block := Suc (next_block s),
               ring := ring s @ [Sqe OP_CLOSE (ycr_fd h) (next_block s)]\<rparr>)"
      using rng by (simp add: disconnect_eq)
    have "(conns s)[nat (ycr_fd h) := 0] ! nat d = conns s ! nat d"
      if "0 \<le> d" "ycr_fd h \<noteq> d" for d
    proof -
      have "nat (ycr_fd h) \<noteq> nat d" using that rng by auto
      then show ?thesis by (rule nth_list_update_neq)
    qed
    then show ?thesis unfolding d fd by (auto simp: active_def)
  qed
qed

lemma distinct_set_singleton:
  assumes "distinct xs" "set xs = {a}"
  shows "xs = [a]"
proof (cases xs)
  case Nil
  then show ?thesis using assms(2) by simp
next
  case (Cons x ys)
  then have "x = a" "set ys \<subseteq> {a}" "a \<notin> set ys" using assms by auto
  then have "ys = []" by (cases ys) auto
  then show ?thesis using \<open>x = a\<close> Cons by simp
qed

subsection \<open>Every completion is dispatched\<close>

lemma negative_completion_effect:
  assumes "wf_state s" "kind_of s c = Some k" "fd_of s c = Some fd" "cqe_res c < 0"
  shows "dispatch c s =
           Inr (if k = YCR_KIND_ACCEPT then
                  s\<lparr>ring := ring s @ [Sqe OP_ACCEPT fd (cqe_user_data c)]\<rparr>
                else if k = YCR_KIND_CLOSE then yc_req_free (cqe_user_data c) s
                else
                  s\<lparr>conns := (conns s)[nat fd := 0],
                    heap := (heap s)(cqe_user_data c := None,
                              next_block s \<mapsto> Request \<lparr>ycr_event = YCR_KIND_CLOSE, ycr_fd = fd\<rparr>),
                    next_block := Suc (next_block s),
                    ring := ring s @ [Sqe OP_CLOSE fd (next_block s)]\<rparr>)"
    and "k = YCR_KIND_READ \<or> k = YCR_KIND_WRITE \<Longrightarrow> 0 \<le> fd \<and> fd < NUM_CONNS"
proof -
  from assms(2) obtain blk where blk: "heap s (cqe_user_data c) = Some blk"
    and kb: "ycr_event (hdr blk) = k" by (rule kind_of_SomeD)
  have fb: "ycr_fd (hdr blk) = fd" using assms(3) blk by (simp add: fd_of_def)
  note ok = inv_block [OF assms(1) blk]
  have both: "dispatch c s =
           Inr (if k = YCR_KIND_ACCEPT then
                  s\<lparr>ring := ring s @ [Sqe OP_ACCEPT fd (cqe_user_data c)]\<rparr>
                else if k = YCR_KIND_CLOSE then yc_req_free (cqe_user_data c) s
                else
                  s\<lparr>conns := (conns s)[nat fd := 0],
                    heap := (heap s)(cqe_user_data c := None,
                              next_block s \<mapsto> Request \<lparr>ycr_event = YCR_KIND_CLOSE, ycr_fd = fd\<rparr>),
                    next_block := Suc (next_block s),
                    ring := ring s @ [Sqe OP_CLOSE fd (next_block s)]\<rparr>) \<and>
        (k = YCR_KIND_READ \<or> k = YCR_KIND_WRITE \<longrightarrow> 0 \<le> fd \<and> fd < NUM_CONNS)"
  proof (cases blk)
    case (Request h)
    then show ?thesis using blk ok kb fb by (simp add: dispatch_close)
  next
    case (Accept_request h a n)
    then show ?thesis using blk ok kb fb assms(4) by (simp add: dispatch_accept)
  next
    case (Io_request h v b)
    have rng: "0 \<le> fd" "fd < NUM_CONNS" using ok Io_request fb by simp_all
    have "dispatch c s = disconnect (cqe_user_data c) fd s"
    proof (cases "ycr_event h = YCR_KIND_READ")
      case True
      then show ?thesis using blk Io_request ok assms(4) fb by (simp add: dispatch_read)
    next
      case False
      then have "ycr_event h = YCR_KIND_WRITE" using ok Io_request by simp
      then show ?thesis using blk Io_request assms(4) fb by (simp add: dispatch_write)
    qed
    moreover have "k = YCR_KIND_READ \<or> k = YCR_KIND_WRITE" using ok Io_request kb by auto
    ultimately show ?thesis using rng by (auto simp: disconnect_eq)
  qed
  from both show "dispatch c s =
           Inr (if k = YCR_KIND_ACCEPT then
                  s\<lparr>ring := ring s @ [Sqe OP_ACCEPT fd (cqe_user_data c)]\<rparr>
                else if k = YCR_KIND_CLOSE then yc_req_free (cqe_user_data c) s
                else
                  s\<lparr>conns := (conns s)[nat fd := 0],
                    heap := (heap s)(cqe_user_data c := None,
                              next_block s \<mapsto> Request \<lparr>ycr_event = YCR_KIND_CLOSE, ycr_fd = fd\<rparr>),
                    next_block := Suc (next_block s),
                    ring := ring s @ [Sqe OP_CLOSE fd (next_block s)]\<rparr>)" by blast
  from both show "k = YCR_KIND_READ \<or> k = YCR_KIND_WRITE \<Longrightarrow> 0 \<le> fd \<and> fd < NUM_CONNS"
    by blast
qed

lemma total_step:
  assumes "wf_state s" "kind_of s c = Some k"
    "k = YCR_KIND_ACCEPT \<Longrightarrow> cqe_res c < NUM_CONNS"
    "k = YCR_KIND_READ \<Longrightarrow> cqe_res c \<le> IOBUF_SIZE"
  shows "\<exists>s'. dispatch c s = Inr s'"
proof -
  from assms(2) obtain blk where blk: "heap s (cqe_user_data c) = Some blk"
    and kb: "ycr_event (hdr blk) = k" by (rule kind_of_SomeD)
  note ok = inv_block [OF assms(1) blk]
  show ?thesis
  proof (cases blk)
    case (Request h)
    then show ?thesis using blk ok by (simp add: dispatch_close)
  next
    case (Accept_request h a n)
    then have "k = YCR_KIND_ACCEPT" using ok kb by simp
    then show ?thesis using blk ok Accept_request assms(3) by (simp add: dispatch_accept)
  next
    case (Io_request h v b)
    have rng: "0 \<le> ycr_fd h \<and> ycr_fd h < NUM_CONNS" using ok Io_request by simp
    show ?thesis
    proof (cases "ycr_event h = YCR_KIND_READ")
      case True
      then have "k = YCR_KIND_READ" using kb Io_request by simp
      then show ?thesis using blk Io_request ok rng True assms(4)
        by (simp add: dispatch_read disconnect_eq)
    next
      case False
      then have "ycr_event h = YCR_KIND_WRITE" using ok Io_request by simp
      then show ?thesis using blk Io_request rng
        by (simp add: dispatch_write disconnect_eq)
    qed
  qed
qed

lemma rearm_or_release_step:
  assumes "wf_state s" "dispatch c s = Inr s'" "kind_of s c = Some k" "fd_of s c = Some fd"
  shows "ring s' = ring s @ submitted s s' \<and>
         (if k = YCR_KIND_ACCEPT then
            heap s' (cqe_user_data c) = heap s (cqe_user_data c) \<and>
            filter (\<lambda>e. sqe_user_data e = cqe_user_data c) (submitted s s') =
              [Sqe OP_ACCEPT fd (cqe_user_data c)]
          else if k = YCR_KIND_READ \<and> 0 < cqe_res c then
            heap s' (cqe_user_data c) = heap s (cqe_user_data c) \<and>
            filter (\<lambda>e. sqe_user_data e = cqe_user_data c) (submitted s s') =
              [Sqe OP_READV fd (cqe_user_data c)]
          else
            heap s' (cqe_user_data c) = None \<and>
            filter (\<lambda>e. sqe_user_data e = cqe_user_data c) (submitted s s') = [])"
  using assms(1,2)
proof (cases rule: kind_cases)
  case (acc h a n)
  show ?thesis by (rule rearm_or_release_accept [OF assms acc(1,2)])
next
  case (rd h v b)
  show ?thesis by (rule rearm_or_release_read [OF assms rd(1,2)])
next
  case (wr h v b)
  show ?thesis by (rule rearm_or_release_write [OF assms wr(1,2)])
next
  case (cl h)
  show ?thesis by (rule rearm_or_release_close [OF assms cl(1,2)])
qed

section \<open>The claims\<close>

text \<open>
  C1. A read completion with a positive result \<open>r\<close> on connection \<open>fd\<close>, with \<open>r\<close> no
  larger than the length of the vector the read was submitted with, submits one write for every other active
  connection and for no one else (not for \<open>fd\<close>, not for an inactive descriptor), in
  ascending order of descriptor, each write naming exactly the first \<open>r\<close> bytes of the
  read buffer; after them it submits one read on \<open>fd\<close> with the same request, which is
  left unchanged in the heap.
\<close>

theorem C1_read_fans_out_then_rearms:
  assumes "wf_state s" "kind_of s c = Some YCR_KIND_READ" "fd_of s c = Some fd"
    "0 < cqe_res c" "vec_of s (cqe_user_data c) = Some vec" "cqe_res c \<le> iov_len vec"
  shows "\<exists>s' ws. dispatch c s = Inr s' \<and>
           ring s' = ring s @ ws @ [Sqe OP_READV fd (cqe_user_data c)] \<and>
           sorted (map sqe_fd ws) \<and> distinct (map sqe_fd ws) \<and>
           set (map sqe_fd ws) = {d. active s d \<and> d \<noteq> fd} \<and>
           (\<forall>e\<in>set ws. sqe_op e = OP_WRITEV \<and>
              payload s' e =
                map_option (take (nat (cqe_res c))) (iobuf_of s (cqe_user_data c))) \<and>
           heap s' (cqe_user_data c) = heap s (cqe_user_data c)"
proof -
  have le: "cqe_res c \<le> IOBUF_SIZE"
    using wf_iov_len [OF assms(1,5)] assms(6) by simp
  from assms(1,2) obtain h v b where
    blk: "heap s (cqe_user_data c) = Some (Io_request h v b)" "ycr_event h = YCR_KIND_READ"
    and len: "length b = nat IOBUF_SIZE" and lt: "cqe_user_data c < next_block s"
    by (rule kind_io [where k = YCR_KIND_READ]) auto
  have fd: "fd = ycr_fd h" using assms(3) blk by (simp add: fd_of_def)
  define s' where "s' = submit (Sqe OP_READV (ycr_fd h) (cqe_user_data c))
                          (writes_to (cqe_res c) b (targets s (ycr_fd h)) s)"
  define ds where "ds = targets s (ycr_fd h)"
  define ws where "ws = map (\<lambda>(d, p). Sqe OP_WRITEV d p)
                          (zip ds [next_block s..<next_block s + length ds])"
  have d: "dispatch c s = Inr s'"
    using dispatch_read [OF blk lt] assms(4) le by (simp add: s'_def)
  note rp = read_pos_state [OF assms(1) blk assms(4) d]
  have dseq: "(if cqe_res c \<le> IOBUF_SIZE then targets s (ycr_fd h) else []) = ds"
    using le by (simp add: ds_def)
  have ring: "ring s' = ring s @ ws @ [Sqe OP_READV fd (cqe_user_data c)]"
    using rp(1) unfolding dseq ws_def fd .
  have fds: "map sqe_fd ws = ds" unfolding ws_def by (rule writes_fds)
  have hp: "heap s' p =
       (if next_block s \<le> p \<and> p < next_block s + length ds
        then Some (write_block (cqe_res c) b (ds ! (p - next_block s)) p) else heap s p)" for p
    using rp(4) [of p] unfolding dseq .
  have pay: "sqe_op e = OP_WRITEV \<and>
             payload s' e = map_option (take (nat (cqe_res c))) (iobuf_of s (cqe_user_data c))"
    if "e \<in> set ws" for e
  proof -
    note we = writes_entries [OF that [unfolded ws_def]]
    have "heap s' (sqe_user_data e) =
          Some (write_block (cqe_res c) b (ds ! (sqe_user_data e - next_block s)) (sqe_user_data e))"
      using hp [of "sqe_user_data e"] we(2,3) by simp
    then have "payload s' e = Some (take (nat (cqe_res c)) b)"
      using assms(4) le len by (intro payload_write_block) auto
    then show ?thesis using we(1) blk by (simp add: iobuf_of_def)
  qed
  have same: "heap s' (cqe_user_data c) = heap s (cqe_user_data c)"
    using hp [of "cqe_user_data c"] lt by simp
  have "sorted (map sqe_fd ws)" "distinct (map sqe_fd ws)"
    "set (map sqe_fd ws) = {d. active s d \<and> d \<noteq> fd}"
    unfolding fds ds_def fd by (simp_all add: targets_sorted targets_active)
  with d ring pay same show ?thesis by blast
qed

theorem C1_relay_witness:
  "wf_state (kernel_store \<lparr>cqe_user_data = 1, cqe_res = 3\<rparr> [121, 111, 33] (state_after relayed)) \<and>
   kind_of (kernel_store \<lparr>cqe_user_data = 1, cqe_res = 3\<rparr> [121, 111, 33] (state_after relayed))
     \<lparr>cqe_user_data = 1, cqe_res = 3\<rparr> = Some YCR_KIND_READ \<and>
   fd_of (kernel_store \<lparr>cqe_user_data = 1, cqe_res = 3\<rparr> [121, 111, 33] (state_after relayed))
     \<lparr>cqe_user_data = 1, cqe_res = 3\<rparr> = Some 5 \<and>
   vec_of (kernel_store \<lparr>cqe_user_data = 1, cqe_res = 3\<rparr> [121, 111, 33] (state_after relayed)) 1 =
     Some \<lparr>iov_base = 1, iov_len = IOBUF_SIZE\<rparr> \<and>
   map_sum id (submitted (kernel_store \<lparr>cqe_user_data = 1, cqe_res = 3\<rparr> [121, 111, 33]
                            (state_after relayed)))
     (dispatch \<lparr>cqe_user_data = 1, cqe_res = 3\<rparr>
        (kernel_store \<lparr>cqe_user_data = 1, cqe_res = 3\<rparr> [121, 111, 33] (state_after relayed))) =
     Inr [Sqe OP_WRITEV 6 4, Sqe OP_READV 5 1] \<and>
   (\<exists>s' ws.
      dispatch \<lparr>cqe_user_data = 1, cqe_res = 3\<rparr>
        (kernel_store \<lparr>cqe_user_data = 1, cqe_res = 3\<rparr> [121, 111, 33] (state_after relayed)) =
        Inr s' \<and>
      ring s' =
        ring (kernel_store \<lparr>cqe_user_data = 1, cqe_res = 3\<rparr> [121, 111, 33] (state_after relayed)) @
        ws @ [Sqe OP_READV 5 1] \<and>
      map sqe_fd ws = [6] \<and>
      (\<forall>e\<in>set ws. sqe_op e = OP_WRITEV \<and>
         payload s' e = Some [Some 121, Some 111, Some 33]))"
proof -
  let ?c = "\<lparr>cqe_user_data = 1, cqe_res = 3\<rparr>"
  let ?s = "kernel_store ?c [121, 111, 33] (state_after relayed)"
  have w: "wf_state ?s" by (rule inv_kernel_store [OF wf_state_after])
  have k: "kind_of ?s ?c = Some YCR_KIND_READ" by code_simp
  have f: "fd_of ?s ?c = Some 5" by code_simp
  have v: "vec_of ?s (cqe_user_data ?c) = Some \<lparr>iov_base = 1, iov_len = IOBUF_SIZE\<rparr>"
    by code_simp
  have r: "0 < cqe_res ?c" by simp
  have r': "cqe_res ?c \<le> iov_len \<lparr>iov_base = 1, iov_len = IOBUF_SIZE\<rparr>" by simp
  have sub: "map_sum id (submitted ?s) (dispatch ?c ?s) =
             Inr [Sqe OP_WRITEV 6 4, Sqe OP_READV 5 1]" by code_simp
  have buf: "map_option (take 3) (iobuf_of ?s 1) = Some [Some 121, Some 111, Some 33]"
    by code_simp
  have act: "{d. active ?s d \<and> d \<noteq> 5} = {6}"
  proof -
    have "conns ?s = (replicate 128 0)[5 := 1, 6 := 1]" by code_simp
    then have "active ?s d \<longleftrightarrow> d = 5 \<or> d = 6" for d
      by (auto simp: active_def nth_list_update nth_replicate nat_eq_iff split: if_splits)
    then show ?thesis by auto
  qed
  from C1_read_fans_out_then_rearms [OF w k f r v r'] obtain s' ws where
    d: "dispatch ?c ?s = Inr s'"
    and ring: "ring s' = ring ?s @ ws @ [Sqe OP_READV 5 (cqe_user_data ?c)]"
    and srt: "sorted (map sqe_fd ws)" "distinct (map sqe_fd ws)"
    and st: "set (map sqe_fd ws) = {d. active ?s d \<and> d \<noteq> 5}"
    and pay: "\<forall>e\<in>set ws. sqe_op e = OP_WRITEV \<and>
              payload s' e = map_option (take (nat (cqe_res ?c))) (iobuf_of ?s (cqe_user_data ?c))"
    by blast
  have "set (map sqe_fd ws) = {6}" using st act by simp
  with srt(2) have fds: "map sqe_fd ws = [6]" by (rule distinct_set_singleton)
  have pay': "\<forall>e\<in>set ws. sqe_op e = OP_WRITEV \<and>
              payload s' e = Some [Some 121, Some 111, Some 33]"
    using pay buf by simp
  have "\<exists>s' ws. dispatch ?c ?s = Inr s' \<and> ring s' = ring ?s @ ws @ [Sqe OP_READV 5 1] \<and>
          map sqe_fd ws = [6] \<and>
          (\<forall>e\<in>set ws. sqe_op e = OP_WRITEV \<and>
             payload s' e = Some [Some 121, Some 111, Some 33])"
    using d ring fds pay' by (intro exI [of _ s'] exI [of _ ws]) simp
  with w k f v sub show ?thesis by simp
qed

text \<open>
  C2. The source does not keep a read away from a connection that is already marked
  inactive. In the run below the write to connection 5 fails, so \<open>conns[5]\<close> is cleared
  and a close of 5 is submitted; the read on 5 that was still outstanding then completes
  with three bytes. The dispatcher relays them to 6 and submits a read on descriptor 5
  again, although 5 is inactive and its close is pending. (Writes are guarded: the
  fan-out only selects descriptors whose entry of \<open>conns\<close> is set.)
\<close>

theorem C2_late_read_rearmed_on_closing_connection:
  "(let s = state_after write_failed;
        c = \<lparr>cqe_user_data = 1, cqe_res = 3\<rparr>
    in \<not> isl (run (init_state 3) write_failed) \<and>
       \<not> active s 5 \<and> last (ring s) = Sqe OP_CLOSE 5 4 \<and>
       kind_of s c = Some YCR_KIND_READ \<and> fd_of s c = Some 5 \<and>
       map_sum id (submitted s) (dispatch c (kernel_store c [121, 111, 33] s)) =
         Inr [Sqe OP_WRITEV 6 5, Sqe OP_READV 5 1])"
  by code_simp

text \<open>
  C3. In every run from the initial state that processes its completions without a
  fault, the number of accepts submitted is the number of accept completions dispatched
  plus one: the accept submitted before the loop, and one more for every accept
  completion, whether it succeeded or failed.
\<close>

theorem C3_one_more_accept_than_completions:
  assumes "run (init_state server_fd) es = Inr s"
  shows "ring (init_state server_fd) = [Sqe OP_ACCEPT server_fd 0] \<and>
         length (kinds_dispatched (init_state server_fd) es) = length es \<and>
         length (filter (\<lambda>e. sqe_op e = OP_ACCEPT) (ring s)) =
           length (filter (\<lambda>k. k = YCR_KIND_ACCEPT)
                     (kinds_dispatched (init_state server_fd) es)) + 1"
proof -
  have i: "ring (init_state server_fd) = [Sqe OP_ACCEPT server_fd 0]"
    by (simp add: init_state_def yc_accept_req_new_def malloc_def submit_def)
  from accepts_run [OF inv_init assms] i show ?thesis by simp
qed

theorem C3_three_accepts_witness:
  "run (init_state 3) accept_failed = Inr (state_after accept_failed) \<and>
   kinds_dispatched (init_state 3) accept_failed =
     [YCR_KIND_ACCEPT, YCR_KIND_ACCEPT, YCR_KIND_ACCEPT] \<and>
   length (filter (\<lambda>e. sqe_op e = OP_ACCEPT) (ring (state_after accept_failed))) = 4"
proof -
  have "\<not> isl (run (init_state 3) accept_failed)" by code_simp
  then have r: "run (init_state 3) accept_failed = Inr (state_after accept_failed)"
    by (rule run_state_after)
  have k: "kinds_dispatched (init_state 3) accept_failed =
           [YCR_KIND_ACCEPT, YCR_KIND_ACCEPT, YCR_KIND_ACCEPT]" by code_simp
  from C3_one_more_accept_than_completions [OF r] r k show ?thesis by simp
qed

text \<open>
  C4. One dispatcher step changes \<open>conns\<close> in exactly one of three ways: a successful
  accept (result at least 0) sets the entry of the new descriptor to 1; a read with a
  result of 0 or less, or a write with a negative result, clears the entry of the
  request's descriptor; every other step leaves \<open>conns\<close> as it is. So a connection
  becomes active only by a successful accept of it, and inactive only by a failed or
  ended read, or a failed write, on it.
\<close>

theorem C4_flags_change_only_by_table:
  assumes "wf_state s" "dispatch c s = Inr s'" "kind_of s c = Some k" "fd_of s c = Some fd"
  shows "conns s' =
           (if k = YCR_KIND_ACCEPT \<and> 0 \<le> cqe_res c then (conns s)[nat (cqe_res c) := 1]
            else if (k = YCR_KIND_READ \<and> cqe_res c \<le> 0) \<or>
                    (k = YCR_KIND_WRITE \<and> cqe_res c < 0) then (conns s)[nat fd := 0]
            else conns s) \<and>
         (active s' d \<and> \<not> active s d \<longrightarrow>
            k = YCR_KIND_ACCEPT \<and> 0 \<le> cqe_res c \<and> d = cqe_res c) \<and>
         (active s d \<and> \<not> active s' d \<longrightarrow>
            ((k = YCR_KIND_READ \<and> cqe_res c \<le> 0) \<or>
             (k = YCR_KIND_WRITE \<and> cqe_res c < 0)) \<and> d = fd)"
proof -
  have len: "length (conns s) = nat NUM_CONNS" using assms(1) by (simp add: wf_state_def)
  have eq: "conns s' =
           (if k = YCR_KIND_ACCEPT \<and> 0 \<le> cqe_res c then (conns s)[nat (cqe_res c) := 1]
            else if (k = YCR_KIND_READ \<and> cqe_res c \<le> 0) \<or>
                    (k = YCR_KIND_WRITE \<and> cqe_res c < 0) then (conns s)[nat fd := 0]
            else conns s)"
    using assms(1,2)
  proof (cases rule: kind_cases)
    case (acc h a n)
    then show ?thesis using assms by (auto simp: dispatch_accept split: if_splits)
  next
    case (rd h v b)
    show ?thesis
    proof (cases "0 < cqe_res c")
      case True
      have "conns s' = conns s"
        by (rule read_pos_state(2) [OF assms(1) rd(1,2) True assms(2)])
      then show ?thesis using rd assms True by simp
    next
      case False
      then show ?thesis using rd assms
        by (auto simp: dispatch_read disconnect_eq split: if_splits)
    qed
  next
    case (wr h v b)
    then show ?thesis using assms
      by (auto simp: dispatch_write disconnect_eq yc_req_free_def split: if_splits)
  next
    case (cl h)
    then show ?thesis using assms by (auto simp: dispatch_close yc_req_free_def)
  qed
  have fd: "0 \<le> fd" if "k = YCR_KIND_READ \<or> k = YCR_KIND_WRITE"
    using assms(1,2) by (cases rule: kind_cases) (use assms(3,4) that in auto)
  have upd: "i = j" if "xs[i := v] ! j \<noteq> xs ! j" for xs :: "int list" and i j v
    using that by (metis nth_list_update_neq)
  have changed: "(k = YCR_KIND_ACCEPT \<and> 0 \<le> cqe_res c \<and> d = cqe_res c \<and> conns s' ! nat d = 1) \<or>
                 (((k = YCR_KIND_READ \<and> cqe_res c \<le> 0) \<or>
                   (k = YCR_KIND_WRITE \<and> cqe_res c < 0)) \<and> d = fd \<and> conns s' ! nat d = 0)"
    if d: "0 \<le> d" "d < NUM_CONNS" "conns s' ! nat d \<noteq> conns s ! nat d"
  proof (cases "k = YCR_KIND_ACCEPT \<and> 0 \<le> cqe_res c")
    case True
    then have e: "conns s' = (conns s)[nat (cqe_res c) := 1]" using eq by (auto split: if_splits)
    then have "nat (cqe_res c) = nat d" using d(3) upd by metis
    then have "d = cqe_res c" using True d by auto
    moreover have "conns s' ! nat d = 1" using e len d \<open>d = cqe_res c\<close> by simp
    ultimately show ?thesis using True by simp
  next
    case False
    show ?thesis
    proof (cases "(k = YCR_KIND_READ \<and> cqe_res c \<le> 0) \<or>
                  (k = YCR_KIND_WRITE \<and> cqe_res c < 0)")
      case dis: True
      then have e: "conns s' = (conns s)[nat fd := 0]" using False eq by (auto split: if_splits)
      then have "nat fd = nat d" using d(3) upd by metis
      moreover have "0 \<le> fd" using dis fd by blast
      ultimately have "d = fd" using d by auto
      moreover have "conns s' ! nat d = 0" using e len d \<open>d = fd\<close> by simp
      ultimately show ?thesis using dis by simp
    next
      case same: False
      have "conns s' = conns s" using False same eq by (auto split: if_splits)
      then show ?thesis using d by simp
    qed
  qed
  have on: "active s' d \<and> \<not> active s d \<longrightarrow>
            k = YCR_KIND_ACCEPT \<and> 0 \<le> cqe_res c \<and> d = cqe_res c"
    using changed by (auto simp: active_def)
  have off: "active s d \<and> \<not> active s' d \<longrightarrow>
            ((k = YCR_KIND_READ \<and> cqe_res c \<le> 0) \<or>
             (k = YCR_KIND_WRITE \<and> cqe_res c < 0)) \<and> d = fd"
    using changed by (auto simp: active_def)
  from eq on off show ?thesis by blast
qed

theorem C4_end_of_stream_witness:
  "wf_state (state_after two_clients) \<and>
   dispatch \<lparr>cqe_user_data = 1, cqe_res = 0\<rparr> (state_after two_clients) =
     Inr (step_after \<lparr>cqe_user_data = 1, cqe_res = 0\<rparr> (state_after two_clients)) \<and>
   kind_of (state_after two_clients) \<lparr>cqe_user_data = 1, cqe_res = 0\<rparr> = Some YCR_KIND_READ \<and>
   fd_of (state_after two_clients) \<lparr>cqe_user_data = 1, cqe_res = 0\<rparr> = Some 5 \<and>
   active (state_after two_clients) 5 \<and>
   \<not> active (step_after \<lparr>cqe_user_data = 1, cqe_res = 0\<rparr> (state_after two_clients)) 5 \<and>
   conns (step_after \<lparr>cqe_user_data = 1, cqe_res = 0\<rparr> (state_after two_clients)) =
     (conns (state_after two_clients))[5 := 0]"
proof -
  let ?s = "state_after two_clients" and ?c = "\<lparr>cqe_user_data = 1, cqe_res = 0\<rparr>"
  have w: "wf_state ?s" by (rule wf_state_after)
  have "\<not> isl (dispatch ?c ?s)" by code_simp
  then have d: "dispatch ?c ?s = Inr (step_after ?c ?s)" by (rule dispatch_step_after)
  have k: "kind_of ?s ?c = Some YCR_KIND_READ" by code_simp
  have f: "fd_of ?s ?c = Some 5" by code_simp
  have a: "active ?s 5" by code_simp
  have b: "\<not> active (step_after ?c ?s) 5" by code_simp
  from C4_flags_change_only_by_table [OF w d k f, of 5] w d k f a b show ?thesis by simp
qed

text \<open>
  C5. \<open>main\<close> never exits with a code other than 1, and it exits with 1 exactly when a
  setup step fails (too few arguments, a port that is not positive, \<open>socket\<close>,
  \<open>setsockopt\<close>, \<open>bind\<close>, \<open>listen\<close> or \<open>io_uring_queue_init\<close> returning a negative
  value) or when, after completions that were all dispatched, \<open>io_uring_wait_cqe\<close> fails.
  A completion with a negative result on a live request is dispatched and the loop goes
  on to the next wait, with exactly the handling of its kind: a failed accept re-submits
  the accept with the same request and changes nothing else; a failed read or write
  frees its request, submits one close of its descriptor with a new minimal request and
  clears that descriptor's entry of \<open>conns\<close>; a failed close frees its request. No other
  connection's activity changes.
\<close>

theorem C5_exit_code_one_only_for_setup_or_wait_failure:
  "(main env ws = Exit n \<longrightarrow> n = 1) \<and>
   (main env ws = Exit 1 \<longleftrightarrow>
      argc env < 2 \<or> atoi_argv1 env \<le> 0 \<or> socket_ret env < 0 \<or> setsockopt_ret env < 0 \<or>
      bind_ret env < 0 \<or> listen_ret env < 0 \<or> io_uring_queue_init_ret env < 0 \<or>
      (\<exists>pre rest s'. ws = map (\<lambda>(c, b). Completion c b) pre @ Wait_failed # rest \<and>
         run (init_state (socket_ret env)) pre = Inr s')) \<and>
   (wf_state s \<and> kind_of s c \<noteq> None \<and> cqe_res c < 0 \<longrightarrow>
      (\<exists>s'. dispatch c (kernel_store c bytes s) = Inr s' \<and>
         main_loop s (Completion c bytes # rest) = main_loop s' rest \<and>
         (\<forall>d. fd_of s c \<noteq> Some d \<longrightarrow> active s' d = active s d) \<and>
         (\<forall>fd. fd_of s c = Some fd \<longrightarrow>
            (kind_of s c = Some YCR_KIND_ACCEPT \<longrightarrow>
               s' = s\<lparr>ring := ring s @ [Sqe OP_ACCEPT fd (cqe_user_data c)]\<rparr>) \<and>
            (kind_of s c = Some YCR_KIND_READ \<or> kind_of s c = Some YCR_KIND_WRITE \<longrightarrow>
               0 \<le> fd \<and> fd < NUM_CONNS \<and>
               s' = s\<lparr>conns := (conns s)[nat fd := 0],
                      heap := (heap s)(cqe_user_data c := None,
                                next_block s \<mapsto>
                                  Request \<lparr>ycr_event = YCR_KIND_CLOSE, ycr_fd = fd\<rparr>),
                      next_block := Suc (next_block s),
                      ring := ring s @ [Sqe OP_CLOSE fd (next_block s)]\<rparr>) \<and>
            (kind_of s c = Some YCR_KIND_CLOSE \<longrightarrow>
               s' = yc_req_free (cqe_user_data c) s))))"
proof (intro conjI impI)
  assume "main env ws = Exit n"
  then show "n = 1"
    by (auto simp: main_def split: if_splits dest: main_loop_exit_code)
next
  show "main env ws = Exit 1 \<longleftrightarrow>
      argc env < 2 \<or> atoi_argv1 env \<le> 0 \<or> socket_ret env < 0 \<or> setsockopt_ret env < 0 \<or>
      bind_ret env < 0 \<or> listen_ret env < 0 \<or> io_uring_queue_init_ret env < 0 \<or>
      (\<exists>pre rest s'. ws = map (\<lambda>(c, b). Completion c b) pre @ Wait_failed # rest \<and>
         run (init_state (socket_ret env)) pre = Inr s')"
    unfolding main_def using main_loop_exit_iff [of "init_state (socket_ret env)" ws]
    by (simp split: if_splits)
next
  assume a: "wf_state s \<and> kind_of s c \<noteq> None \<and> cqe_res c < 0"
  then have w: "wf_state s" and neg: "cqe_res c < 0" by simp_all
  have ks: "kernel_store c bytes s = s" using neg by (simp add: kernel_store_nonpositive)
  from a obtain k where k: "kind_of s c = Some k" by auto
  then obtain fd0 where f: "fd_of s c = Some fd0" by (auto simp: kind_of_def fd_of_def)
  let ?s' = "if k = YCR_KIND_ACCEPT then
                  s\<lparr>ring := ring s @ [Sqe OP_ACCEPT fd0 (cqe_user_data c)]\<rparr>
                else if k = YCR_KIND_CLOSE then yc_req_free (cqe_user_data c) s
                else
                  s\<lparr>conns := (conns s)[nat fd0 := 0],
                    heap := (heap s)(cqe_user_data c := None,
                              next_block s \<mapsto> Request \<lparr>ycr_event = YCR_KIND_CLOSE, ycr_fd = fd0\<rparr>),
                    next_block := Suc (next_block s),
                    ring := ring s @ [Sqe OP_CLOSE fd0 (next_block s)]\<rparr>"
  have d: "dispatch c s = Inr ?s'" by (rule negative_completion_effect(1) [OF w k f neg])
  have rng: "k = YCR_KIND_READ \<or> k = YCR_KIND_WRITE \<Longrightarrow> 0 \<le> fd0 \<and> fd0 < NUM_CONNS"
    by (rule negative_completion_effect(2) [OF w k f neg])
  from negative_completion [OF w _ neg] a d
  have act: "\<forall>d. fd_of s c \<noteq> Some d \<longrightarrow> active ?s' d = active s d" by auto
  have eff: "\<forall>fd. fd_of s c = Some fd \<longrightarrow>
            (kind_of s c = Some YCR_KIND_ACCEPT \<longrightarrow>
               ?s' = s\<lparr>ring := ring s @ [Sqe OP_ACCEPT fd (cqe_user_data c)]\<rparr>) \<and>
            (kind_of s c = Some YCR_KIND_READ \<or> kind_of s c = Some YCR_KIND_WRITE \<longrightarrow>
               0 \<le> fd \<and> fd < NUM_CONNS \<and>
               ?s' = s\<lparr>conns := (conns s)[nat fd := 0],
                      heap := (heap s)(cqe_user_data c := None,
                                next_block s \<mapsto>
                                  Request \<lparr>ycr_event = YCR_KIND_CLOSE, ycr_fd = fd\<rparr>),
                      next_block := Suc (next_block s),
                      ring := ring s @ [Sqe OP_CLOSE fd (next_block s)]\<rparr>) \<and>
            (kind_of s c = Some YCR_KIND_CLOSE \<longrightarrow>
               ?s' = yc_req_free (cqe_user_data c) s)"
    using k f rng by auto
  have ml: "main_loop s (Completion c bytes # rest) = main_loop ?s' rest"
    using d ks by simp
  show "\<exists>s'. dispatch c (kernel_store c bytes s) = Inr s' \<and>
         main_loop s (Completion c bytes # rest) = main_loop s' rest \<and>
         (\<forall>d. fd_of s c \<noteq> Some d \<longrightarrow> active s' d = active s d) \<and>
         (\<forall>fd. fd_of s c = Some fd \<longrightarrow>
            (kind_of s c = Some YCR_KIND_ACCEPT \<longrightarrow>
               s' = s\<lparr>ring := ring s @ [Sqe OP_ACCEPT fd (cqe_user_data c)]\<rparr>) \<and>
            (kind_of s c = Some YCR_KIND_READ \<or> kind_of s c = Some YCR_KIND_WRITE \<longrightarrow>
               0 \<le> fd \<and> fd < NUM_CONNS \<and>
               s' = s\<lparr>conns := (conns s)[nat fd := 0],
                      heap := (heap s)(cqe_user_data c := None,
                                next_block s \<mapsto>
                                  Request \<lparr>ycr_event = YCR_KIND_CLOSE, ycr_fd = fd\<rparr>),
                      next_block := Suc (next_block s),
                      ring := ring s @ [Sqe OP_CLOSE fd (next_block s)]\<rparr>) \<and>
            (kind_of s c = Some YCR_KIND_CLOSE \<longrightarrow>
               s' = yc_req_free (cqe_user_data c) s))"
    unfolding ks using d ml act eff by (intro exI [of _ ?s'] conjI)
qed

theorem C5_failed_completions_then_failed_wait_witness:
  "main \<lparr>argc = 2, atoi_argv1 = 7000, socket_ret = 3, setsockopt_ret = 0, bind_ret = 0,
         listen_ret = 0, io_uring_queue_init_ret = 0\<rparr>
     [Completion \<lparr>cqe_user_data = 0, cqe_res = - 24\<rparr> [], Wait_failed] = Exit 1 \<and>
   wf_state (init_state 3) \<and>
   kind_of (init_state 3) \<lparr>cqe_user_data = 0, cqe_res = - 24\<rparr> = Some YCR_KIND_ACCEPT \<and>
   wf_state (state_after relayed) \<and>
   kind_of (state_after relayed) \<lparr>cqe_user_data = 3, cqe_res = - 32\<rparr> = Some YCR_KIND_WRITE \<and>
   fd_of (state_after relayed) \<lparr>cqe_user_data = 3, cqe_res = - 32\<rparr> = Some 5 \<and>
   active (state_after relayed) 5 \<and> active (state_after relayed) 6 \<and>
   (\<exists>s'. dispatch \<lparr>cqe_user_data = 0, cqe_res = - 24\<rparr>
            (kernel_store \<lparr>cqe_user_data = 0, cqe_res = - 24\<rparr> [] (init_state 3)) = Inr s' \<and>
      s' = (init_state 3)\<lparr>ring := ring (init_state 3) @ [Sqe OP_ACCEPT 3 0]\<rparr>) \<and>
   (\<exists>s'. dispatch \<lparr>cqe_user_data = 3, cqe_res = - 32\<rparr>
            (kernel_store \<lparr>cqe_user_data = 3, cqe_res = - 32\<rparr> [] (state_after relayed)) =
            Inr s' \<and>
      main_loop (state_after relayed)
        [Completion \<lparr>cqe_user_data = 3, cqe_res = - 32\<rparr> [], Wait_failed] = Exit 1 \<and>
      \<not> active s' 5 \<and> active s' 6 \<and> heap s' 3 = None \<and>
      heap s' 4 = Some (Request \<lparr>ycr_event = YCR_KIND_CLOSE, ycr_fd = 5\<rparr>) \<and>
      submitted (state_after relayed) s' = [Sqe OP_CLOSE 5 4])"
proof -
  let ?a = "\<lparr>cqe_user_data = 0, cqe_res = - 24\<rparr>"
  let ?w = "\<lparr>cqe_user_data = 3, cqe_res = - 32\<rparr>"
  let ?s = "state_after relayed"
  let ?env = "\<lparr>argc = 2, atoi_argv1 = 7000, socket_ret = 3, setsockopt_ret = 0, bind_ret = 0,
         listen_ret = 0, io_uring_queue_init_ret = 0\<rparr>"
  have wi: "wf_state (init_state 3)" by (rule inv_init)
  have ki: "kind_of (init_state 3) ?a = Some YCR_KIND_ACCEPT"
    by (simp add: kind_of_def init_state_def yc_accept_req_new_def malloc_def submit_def)
  have fi: "fd_of (init_state 3) ?a = Some 3"
    by (simp add: fd_of_def init_state_def yc_accept_req_new_def malloc_def submit_def)
  have hi: "wf_state (init_state 3) \<and> kind_of (init_state 3) ?a \<noteq> None \<and> cqe_res ?a < 0"
    using wi ki by simp
  note ti = C5_exit_code_one_only_for_setup_or_wait_failure
    [of ?env "[Completion ?a [], Wait_failed]" 1 "init_state 3" ?a "[]" "[Wait_failed]",
     THEN conjunct2, THEN conjunct2, THEN mp, OF hi]
  then obtain s1 where
    d1: "dispatch ?a (kernel_store ?a [] (init_state 3)) = Inr s1"
    and m1: "main_loop (init_state 3) (Completion ?a [] # [Wait_failed]) = main_loop s1 [Wait_failed]"
    and e1: "\<forall>fd. fd_of (init_state 3) ?a = Some fd \<longrightarrow>
            (kind_of (init_state 3) ?a = Some YCR_KIND_ACCEPT \<longrightarrow>
               s1 = (init_state 3)\<lparr>ring := ring (init_state 3) @
                      [Sqe OP_ACCEPT fd (cqe_user_data ?a)]\<rparr>)"
    by blast
  have s1: "s1 = (init_state 3)\<lparr>ring := ring (init_state 3) @ [Sqe OP_ACCEPT 3 0]\<rparr>"
    using e1 fi ki by simp
  have ex: "main ?env [Completion ?a [], Wait_failed] = Exit 1"
    using m1 by (simp add: main_def)
  have ws: "wf_state ?s" by (rule wf_state_after)
  have kw: "kind_of ?s ?w = Some YCR_KIND_WRITE" by code_simp
  have fw: "fd_of ?s ?w = Some 5" by code_simp
  have a5: "active ?s 5" by code_simp
  have a6: "active ?s 6" by code_simp
  have nb: "next_block ?s = 4" by code_simp
  have len: "length (conns ?s) = 128" using ws by (simp add: wf_state_def)
  have hw: "wf_state ?s \<and> kind_of ?s ?w \<noteq> None \<and> cqe_res ?w < 0"
    using ws kw by simp
  note tw = C5_exit_code_one_only_for_setup_or_wait_failure
    [of ?env "[]" 1 ?s ?w "[]" "[Wait_failed]",
     THEN conjunct2, THEN conjunct2, THEN mp, OF hw]
  then obtain s2 where
    d2: "dispatch ?w (kernel_store ?w [] ?s) = Inr s2"
    and m2: "main_loop ?s (Completion ?w [] # [Wait_failed]) = main_loop s2 [Wait_failed]"
    and a2: "\<forall>d. fd_of ?s ?w \<noteq> Some d \<longrightarrow> active s2 d = active ?s d"
    and e2: "\<forall>fd. fd_of ?s ?w = Some fd \<longrightarrow>
            (kind_of ?s ?w = Some YCR_KIND_READ \<or> kind_of ?s ?w = Some YCR_KIND_WRITE \<longrightarrow>
               s2 = ?s\<lparr>conns := (conns ?s)[nat fd := 0],
                      heap := (heap ?s)(cqe_user_data ?w := None,
                                next_block ?s \<mapsto>
                                  Request \<lparr>ycr_event = YCR_KIND_CLOSE, ycr_fd = fd\<rparr>),
                      next_block := Suc (next_block ?s),
                      ring := ring ?s @ [Sqe OP_CLOSE fd (next_block ?s)]\<rparr>)"
    by blast
  have s2: "s2 = ?s\<lparr>conns := (conns ?s)[5 := 0],
                      heap := (heap ?s)(3 := None,
                                4 \<mapsto> Request \<lparr>ycr_event = YCR_KIND_CLOSE, ycr_fd = 5\<rparr>),
                      next_block := 5,
                      ring := ring ?s @ [Sqe OP_CLOSE 5 4]\<rparr>"
    using e2 fw kw nb by simp
  have "active s2 6 = active ?s 6" using a2 fw by simp
  then have p6: "active s2 6" using a6 by simp
  have p5: "\<not> active s2 5" unfolding s2 using len by (simp add: active_def)
  have pm: "main_loop ?s [Completion ?w [], Wait_failed] = Exit 1" using m2 by simp
  have ph: "heap s2 3 = None"
    "heap s2 4 = Some (Request \<lparr>ycr_event = YCR_KIND_CLOSE, ycr_fd = 5\<rparr>)"
    "submitted ?s s2 = [Sqe OP_CLOSE 5 4]"
    unfolding s2 by (simp_all add: submitted_def)
  have one: "\<exists>s'. dispatch ?a (kernel_store ?a [] (init_state 3)) = Inr s' \<and>
      s' = (init_state 3)\<lparr>ring := ring (init_state 3) @ [Sqe OP_ACCEPT 3 0]\<rparr>"
    using d1 s1 by blast
  have two: "\<exists>s'. dispatch ?w (kernel_store ?w [] ?s) = Inr s' \<and>
      main_loop ?s [Completion ?w [], Wait_failed] = Exit 1 \<and>
      \<not> active s' 5 \<and> active s' 6 \<and> heap s' 3 = None \<and>
      heap s' 4 = Some (Request \<lparr>ycr_event = YCR_KIND_CLOSE, ycr_fd = 5\<rparr>) \<and>
      submitted ?s s' = [Sqe OP_CLOSE 5 4]"
    using d2 pm p5 p6 ph by blast
  from ex wi ki ws kw fw a5 a6 one two show ?thesis by blast
qed

text \<open>
  C6, as stated, fails: a connection whose peer closes at once is active between its
  accept completion and its first read completion. Below, descriptor 5 is accepted and
  its first read completes with 0; after the accept, 5 is active.
\<close>

theorem C6_connection_active_before_first_read:
  "\<not> isl (run (init_state 3) connect_then_close) \<and>
   kinds_dispatched (init_state 3) connect_then_close = [YCR_KIND_ACCEPT, YCR_KIND_READ] \<and>
   fd_of (state_after (take 1 connect_then_close)) \<lparr>cqe_user_data = 1, cqe_res = 0\<rparr> = Some 5 \<and>
   active (state_after (take 1 connect_then_close)) 5 \<and>
   \<not> active (state_after connect_then_close) 5"
  by code_simp

text \<open>
  C6, amended. A successful accept marks the new connection active at once and submits
  its first read; when a read of that connection completes with 0, in whatever later
  state, the connection is marked inactive and a close is submitted for it.
\<close>

theorem C6_active_from_accept_until_end_of_stream:
  assumes "wf_state s" "kind_of s c = Some YCR_KIND_ACCEPT" "0 \<le> cqe_res c"
    "cqe_res c < NUM_CONNS"
    and "wf_state t" "kind_of t \<lparr>cqe_user_data = q, cqe_res = 0\<rparr> = Some YCR_KIND_READ"
    "fd_of t \<lparr>cqe_user_data = q, cqe_res = 0\<rparr> = Some (cqe_res c)"
  shows "(\<exists>s1. dispatch c s = Inr s1 \<and> active s1 (cqe_res c) \<and>
            Sqe OP_READV (cqe_res c) (next_block s) \<in> set (submitted s s1) \<and>
            kind_of s1 \<lparr>cqe_user_data = next_block s, cqe_res = 0\<rparr> = Some YCR_KIND_READ \<and>
            fd_of s1 \<lparr>cqe_user_data = next_block s, cqe_res = 0\<rparr> = Some (cqe_res c)) \<and>
         (\<exists>t'. dispatch \<lparr>cqe_user_data = q, cqe_res = 0\<rparr> t = Inr t' \<and>
            \<not> active t' (cqe_res c) \<and>
            submitted t t' = [Sqe OP_CLOSE (cqe_res c) (next_block t)])"
proof
  from assms(1,2) obtain h a n where
    blk: "heap s (cqe_user_data c) = Some (Accept_request h a n)" "ycr_event h = YCR_KIND_ACCEPT"
    by (rule kind_accept)
  have len: "length (conns s) = nat NUM_CONNS" using assms(1) by (simp add: wf_state_def)
  have d: "dispatch c s =
        Inr (s\<lparr>conns := (conns s)[nat (cqe_res c) := 1],
               heap := (heap s)(next_block s \<mapsto> read_block (cqe_res c) (next_block s)),
               next_block := Suc (next_block s),
               ring := ring s @ [Sqe OP_READV (cqe_res c) (next_block s),
                                 Sqe OP_ACCEPT (ycr_fd h) (cqe_user_data c)]\<rparr>)"
    using dispatch_accept [OF blk] assms(3,4) by simp
  show "\<exists>s1. dispatch c s = Inr s1 \<and> active s1 (cqe_res c) \<and>
            Sqe OP_READV (cqe_res c) (next_block s) \<in> set (submitted s s1) \<and>
            kind_of s1 \<lparr>cqe_user_data = next_block s, cqe_res = 0\<rparr> = Some YCR_KIND_READ \<and>
            fd_of s1 \<lparr>cqe_user_data = next_block s, cqe_res = 0\<rparr> = Some (cqe_res c)"
    unfolding d using assms(3,4) len
    by (simp add: active_def submitted_def kind_of_def fd_of_def read_block_def)
next
  let ?e = "\<lparr>cqe_user_data = q, cqe_res = 0\<rparr>"
  from assms(5,6) obtain h v b where
    blk: "heap t (cqe_user_data ?e) = Some (Io_request h v b)" "ycr_event h = YCR_KIND_READ"
    and lt: "cqe_user_data ?e < next_block t"
    by (rule kind_io [where k = YCR_KIND_READ]) auto
  have fd: "ycr_fd h = cqe_res c" using assms(7) blk by (simp add: fd_of_def)
  have len: "length (conns t) = nat NUM_CONNS" using assms(5) by (simp add: wf_state_def)
  have "dispatch ?e t = disconnect q (cqe_res c) t"
    using dispatch_read [OF blk lt] fd by simp
  then have d: "dispatch ?e t =
        Inr (t\<lparr>conns := (conns t)[nat (cqe_res c) := 0],
               heap := (heap t)(q := None,
                         next_block t \<mapsto> Request \<lparr>ycr_event = YCR_KIND_CLOSE, ycr_fd = cqe_res c\<rparr>),
               next_block := Suc (next_block t),
               ring := ring t @ [Sqe OP_CLOSE (cqe_res c) (next_block t)]\<rparr>)"
    using assms(3,4) by (simp add: disconnect_eq)
  show "\<exists>t'. dispatch ?e t = Inr t' \<and> \<not> active t' (cqe_res c) \<and>
            submitted t t' = [Sqe OP_CLOSE (cqe_res c) (next_block t)]"
    unfolding d using assms(3,4) len by (simp add: active_def submitted_def)
qed

theorem C6_connect_then_close_witness:
  "wf_state (init_state 3) \<and>
   kind_of (init_state 3) \<lparr>cqe_user_data = 0, cqe_res = 5\<rparr> = Some YCR_KIND_ACCEPT \<and>
   wf_state (state_after (take 1 connect_then_close)) \<and>
   kind_of (state_after (take 1 connect_then_close)) \<lparr>cqe_user_data = 1, cqe_res = 0\<rparr> =
     Some YCR_KIND_READ \<and>
   fd_of (state_after (take 1 connect_then_close)) \<lparr>cqe_user_data = 1, cqe_res = 0\<rparr> = Some 5 \<and>
   (\<exists>s1. dispatch \<lparr>cqe_user_data = 0, cqe_res = 5\<rparr> (init_state 3) = Inr s1 \<and> active s1 5) \<and>
   (\<exists>t'. dispatch \<lparr>cqe_user_data = 1, cqe_res = 0\<rparr> (state_after (take 1 connect_then_close)) =
            Inr t' \<and> \<not> active t' 5)"
proof -
  let ?c = "\<lparr>cqe_user_data = 0, cqe_res = 5\<rparr>"
  let ?t = "state_after (take 1 connect_then_close)"
  have w: "wf_state (init_state 3)" by (rule inv_init)
  have k: "kind_of (init_state 3) ?c = Some YCR_KIND_ACCEPT"
    by (simp add: kind_of_def init_state_def yc_accept_req_new_def malloc_def submit_def)
  have r: "0 \<le> cqe_res ?c" "cqe_res ?c < NUM_CONNS" by simp_all
  have wt: "wf_state ?t" by (rule wf_state_after)
  have kt: "kind_of ?t \<lparr>cqe_user_data = 1, cqe_res = 0\<rparr> = Some YCR_KIND_READ" by code_simp
  have ft: "fd_of ?t \<lparr>cqe_user_data = 1, cqe_res = 0\<rparr> = Some 5" by code_simp
  have ft': "fd_of ?t \<lparr>cqe_user_data = 1, cqe_res = 0\<rparr> = Some (cqe_res ?c)" using ft by simp
  note t = C6_active_from_accept_until_end_of_stream [OF w k r wt kt ft']
  from t [THEN conjunct1] obtain s1 where "dispatch ?c (init_state 3) = Inr s1 \<and> active s1 5"
    by auto
  moreover from t [THEN conjunct2] obtain t' where
    "dispatch \<lparr>cqe_user_data = 1, cqe_res = 0\<rparr> ?t = Inr t' \<and> \<not> active t' 5"
    by auto
  ultimately show ?thesis using w k wt kt ft by blast
qed

text \<open>
  C7. Every write submitted by a fan-out uses a request allocated in that step (its
  block was not live before, and it is not the read request), whose vector points at its
  own buffer with length \<open>r\<close>, and whose buffer starts with the first \<open>r\<close> bytes of the read
  buffer. The requests of one fan-out are pairwise distinct blocks, and changing or
  freeing any other block leaves the bytes a read/write entry names unchanged.
\<close>

theorem C7_write_requests_own_their_copy:
  assumes "wf_state s" "kind_of s c = Some YCR_KIND_READ" "0 < cqe_res c"
    "vec_of s (cqe_user_data c) = Some vec" "cqe_res c \<le> iov_len vec"
    "dispatch c s = Inr s'" "iobuf_of s (cqe_user_data c) = Some rbuf"
  shows "(\<forall>e\<in>set (submitted s s'). sqe_op e = OP_WRITEV \<longrightarrow>
            heap s (sqe_user_data e) = None \<and> sqe_user_data e \<noteq> cqe_user_data c \<and>
            (\<exists>h v b. heap s' (sqe_user_data e) = Some (Io_request h v b) \<and>
               ycr_event h = YCR_KIND_WRITE \<and> ycr_fd h = sqe_fd e \<and>
               iov_base v = sqe_user_data e \<and> iov_len v = cqe_res c \<and>
               take (nat (cqe_res c)) b = take (nat (cqe_res c)) rbuf)) \<and>
         distinct (map sqe_user_data (filter (\<lambda>e. sqe_op e = OP_WRITEV) (submitted s s'))) \<and>
         (\<forall>p e x. vec_of s' (sqe_user_data e) \<noteq> None \<and> p \<noteq> sqe_user_data e \<longrightarrow>
            payload (s'\<lparr>heap := (heap s')(p := x)\<rparr>) e = payload s' e)"
proof -
  have le: "cqe_res c \<le> IOBUF_SIZE"
    using wf_iov_len [OF assms(1,4)] assms(5) by simp
  from assms(1,2) obtain h v b where
    blk: "heap s (cqe_user_data c) = Some (Io_request h v b)" "ycr_event h = YCR_KIND_READ"
    and len: "length b = nat IOBUF_SIZE" and lt: "cqe_user_data c < next_block s"
    by (rule kind_io [where k = YCR_KIND_READ]) auto
  have rbuf: "rbuf = b" using assms(7) blk by (simp add: iobuf_of_def)
  define ds where "ds = targets s (ycr_fd h)"
  define ws where "ws = map (\<lambda>(d, p). Sqe OP_WRITEV d p)
                          (zip ds [next_block s..<next_block s + length ds])"
  note rp = read_pos_state [OF assms(1) blk assms(3) assms(6)]
  have dseq: "(if cqe_res c \<le> IOBUF_SIZE then targets s (ycr_fd h) else []) = ds"
    using le by (simp add: ds_def)
  have ring: "ring s' = ring s @ ws @ [Sqe OP_READV (ycr_fd h) (cqe_user_data c)]"
    using rp(1) unfolding dseq ws_def .
  then have sub: "submitted s s' = ws @ [Sqe OP_READV (ycr_fd h) (cqe_user_data c)]"
    by (simp add: submitted_def)
  have hp: "heap s' p =
       (if next_block s \<le> p \<and> p < next_block s + length ds
        then Some (write_block (cqe_res c) b (ds ! (p - next_block s)) p) else heap s p)" for p
    using rp(4) [of p] unfolding dseq .
  have fresh: "heap s p = None" if "next_block s \<le> p" for p
  proof (cases "heap s p")
    case (Some blk)
    from inv_block(1) [OF assms(1) Some] that show ?thesis by simp
  qed simp
  have one: "heap s (sqe_user_data e) = None \<and> sqe_user_data e \<noteq> cqe_user_data c \<and>
            (\<exists>h v b. heap s' (sqe_user_data e) = Some (Io_request h v b) \<and>
               ycr_event h = YCR_KIND_WRITE \<and> ycr_fd h = sqe_fd e \<and>
               iov_base v = sqe_user_data e \<and> iov_len v = cqe_res c \<and>
               take (nat (cqe_res c)) b = take (nat (cqe_res c)) rbuf)"
    if e: "e \<in> set (submitted s s')" "sqe_op e = OP_WRITEV" for e
  proof -
    have "e \<in> set ws" using e sub by auto
    note we = writes_entries [OF this [unfolded ws_def]]
    have h': "heap s' (sqe_user_data e) =
          Some (write_block (cqe_res c) b (sqe_fd e) (sqe_user_data e))"
      using hp [of "sqe_user_data e"] we(2,3,5) by simp
    have "take (nat (cqe_res c)) (memcpy (replicate (nat IOBUF_SIZE) None) b (nat (cqe_res c))) =
          take (nat (cqe_res c)) b"
      using assms(3) le len by (simp add: memcpy_def)
    then show ?thesis
      using h' we(2) lt fresh [OF we(2)] rbuf by (simp add: write_block_def)
  qed
  have two: "distinct (map sqe_user_data (filter (\<lambda>e. sqe_op e = OP_WRITEV) (submitted s s')))"
  proof -
    have "filter (\<lambda>e. sqe_op e = OP_WRITEV) (submitted s s') = ws"
      unfolding sub ws_def by (simp add: writes_all_writev)
    moreover have "map sqe_user_data ws = [next_block s..<next_block s + length ds]"
      unfolding ws_def by (rule writes_user_data)
    ultimately show ?thesis by simp
  qed
  have wf': "wf_state s'" by (rule inv_dispatch [OF assms(1,6)])
  have three: "payload (s'\<lparr>heap := (heap s')(p := x)\<rparr>) e = payload s' e"
    if "vec_of s' (sqe_user_data e) \<noteq> None \<and> p \<noteq> sqe_user_data e" for p e x
    using that payload_other_block [OF wf'] by blast
  from one two three show ?thesis by blast
qed

theorem C7_relay_witness:
  "wf_state (kernel_store \<lparr>cqe_user_data = 1, cqe_res = 3\<rparr> [121, 111, 33] (state_after relayed)) \<and>
   kind_of (kernel_store \<lparr>cqe_user_data = 1, cqe_res = 3\<rparr> [121, 111, 33] (state_after relayed))
     \<lparr>cqe_user_data = 1, cqe_res = 3\<rparr> = Some YCR_KIND_READ \<and>
   vec_of (kernel_store \<lparr>cqe_user_data = 1, cqe_res = 3\<rparr> [121, 111, 33] (state_after relayed)) 1 =
     Some \<lparr>iov_base = 1, iov_len = IOBUF_SIZE\<rparr> \<and>
   iobuf_of (kernel_store \<lparr>cqe_user_data = 1, cqe_res = 3\<rparr> [121, 111, 33] (state_after relayed)) 1 =
     Some ([Some 121, Some 111, Some 33] @ replicate 1021 None) \<and>
   submitted (kernel_store \<lparr>cqe_user_data = 1, cqe_res = 3\<rparr> [121, 111, 33] (state_after relayed))
     (step_after \<lparr>cqe_user_data = 1, cqe_res = 3\<rparr>
        (kernel_store \<lparr>cqe_user_data = 1, cqe_res = 3\<rparr> [121, 111, 33] (state_after relayed))) =
     [Sqe OP_WRITEV 6 4, Sqe OP_READV 5 1] \<and>
   heap (kernel_store \<lparr>cqe_user_data = 1, cqe_res = 3\<rparr> [121, 111, 33] (state_after relayed)) 4 =
     None \<and>
   (\<exists>h v b.
      heap (step_after \<lparr>cqe_user_data = 1, cqe_res = 3\<rparr>
              (kernel_store \<lparr>cqe_user_data = 1, cqe_res = 3\<rparr> [121, 111, 33]
                 (state_after relayed))) 4 = Some (Io_request h v b) \<and>
      ycr_event h = YCR_KIND_WRITE \<and> ycr_fd h = 6 \<and> iov_base v = 4 \<and> iov_len v = 3 \<and>
      take 3 b = [Some 121, Some 111, Some 33]) \<and>
   payload (yc_req_free 3
              (step_after \<lparr>cqe_user_data = 1, cqe_res = 3\<rparr>
                 (kernel_store \<lparr>cqe_user_data = 1, cqe_res = 3\<rparr> [121, 111, 33]
                    (state_after relayed))))
     (Sqe OP_WRITEV 6 4) = Some [Some 121, Some 111, Some 33]"
proof -
  let ?c = "\<lparr>cqe_user_data = 1, cqe_res = 3\<rparr>"
  let ?s = "kernel_store ?c [121, 111, 33] (state_after relayed)"
  let ?s' = "step_after ?c ?s"
  let ?e = "Sqe OP_WRITEV 6 4"
  have w: "wf_state ?s" by (rule inv_kernel_store [OF wf_state_after])
  have k: "kind_of ?s ?c = Some YCR_KIND_READ" by code_simp
  have vc: "vec_of ?s (cqe_user_data ?c) = Some \<lparr>iov_base = 1, iov_len = IOBUF_SIZE\<rparr>"
    by code_simp
  have r: "0 < cqe_res ?c" by simp
  have r': "cqe_res ?c \<le> iov_len \<lparr>iov_base = 1, iov_len = IOBUF_SIZE\<rparr>" by simp
  have "\<not> isl (dispatch ?c ?s)" by code_simp
  then have d: "dispatch ?c ?s = Inr ?s'" by (rule dispatch_step_after)
  have b: "iobuf_of ?s (cqe_user_data ?c) = Some ([Some 121, Some 111, Some 33] @ replicate 1021 None)"
    by code_simp
  have sub: "submitted ?s ?s' = [?e, Sqe OP_READV 5 1]" by code_simp
  have v: "vec_of ?s' (sqe_user_data ?e) \<noteq> None" by code_simp
  have p: "payload ?s' ?e = Some [Some 121, Some 111, Some 33]" by code_simp
  note t = C7_write_requests_own_their_copy [OF w k r vc r' d b]
  have e: "?e \<in> set (submitted ?s ?s')" "sqe_op ?e = OP_WRITEV" using sub by simp_all
  note one = t [THEN conjunct1, rule_format, OF e]
  have "vec_of ?s' (sqe_user_data ?e) \<noteq> None \<and> 3 \<noteq> sqe_user_data ?e"
    using v by simp
  then have "payload (?s'\<lparr>heap := (heap ?s')(3 := None)\<rparr>) ?e = payload ?s' ?e"
    by (rule t [THEN conjunct2, THEN conjunct2, rule_format])
  then have three: "payload (yc_req_free 3 ?s') ?e = Some [Some 121, Some 111, Some 33]"
    using p by (simp add: yc_req_free_def)
  from one have one': "heap ?s 4 = None \<and>
      (\<exists>h v b. heap ?s' 4 = Some (Io_request h v b) \<and>
         ycr_event h = YCR_KIND_WRITE \<and> ycr_fd h = 6 \<and> iov_base v = 4 \<and> iov_len v = 3 \<and>
         take 3 b = [Some 121, Some 111, Some 33])"
    by simp
  from w k vc b sub one' three show ?thesis by simp
qed

text \<open>
  C8, as stated, fails: the new descriptor of a successful accept is used as an index of
  \<open>conns\<close> without being compared with the capacity. With descriptor 128 the store
  \<open>conns[128] = 1\<close> is outside the array.
\<close>

theorem C8_accept_beyond_capacity:
  "kind_of (init_state 3) \<lparr>cqe_user_data = 0, cqe_res = 128\<rparr> = Some YCR_KIND_ACCEPT \<and>
   dispatch \<lparr>cqe_user_data = 0, cqe_res = 128\<rparr> (init_state 3) = Inl Index_out_of_bounds"
proof -
  let ?c = "\<lparr>cqe_user_data = 0, cqe_res = 128\<rparr>"
  have h: "heap (init_state 3) (cqe_user_data ?c) =
           Some (Accept_request \<lparr>ycr_event = YCR_KIND_ACCEPT, ycr_fd = 3\<rparr>
                   (replicate SOCKADDR_IN_SIZE None) SOCKADDR_IN_SIZE)"
    by (simp add: init_state_def yc_accept_req_new_def malloc_def submit_def)
  have "dispatch ?c (init_state 3) = Inl Index_out_of_bounds"
    by (subst dispatch_accept [OF h]) simp_all
  moreover have "kind_of (init_state 3) ?c = Some YCR_KIND_ACCEPT"
    using h by (simp add: kind_of_def)
  ultimately show ?thesis by simp
qed

text \<open>
  C8, amended. In a well-formed state, a dispatcher step indexes \<open>conns\<close> outside its 128
  entries exactly when the completion is a successful accept whose new descriptor is 128
  or more; every other access (clearing the entry of a read or write request's
  descriptor, the fan-out loop) is in range, and the step leaves the state well-formed,
  so the descriptors stored in requests stay in range.
\<close>

theorem C8_table_index_in_range_unless_accept_overflows:
  assumes "wf_state s"
  shows "(dispatch c s = Inl Index_out_of_bounds \<longleftrightarrow>
            kind_of s c = Some YCR_KIND_ACCEPT \<and> NUM_CONNS \<le> cqe_res c) \<and>
         (\<forall>s'. dispatch c s = Inr s' \<longrightarrow> wf_state s')"
proof -
  have "dispatch c s = Inl Index_out_of_bounds \<longleftrightarrow>
            kind_of s c = Some YCR_KIND_ACCEPT \<and> NUM_CONNS \<le> cqe_res c"
  proof (cases "heap s (cqe_user_data c)")
    case None
    then show ?thesis by (simp add: dispatch_dangling kind_of_def)
  next
    case (Some blk)
    note ok = inv_block [OF assms Some]
    show ?thesis
    proof (cases blk)
      case (Request h)
      then show ?thesis using Some ok by (simp add: dispatch_close kind_of_def)
    next
      case (Accept_request h a n)
      then show ?thesis using Some ok by (simp add: dispatch_accept kind_of_def)
    next
      case (Io_request h v b)
      have rng: "0 \<le> ycr_fd h \<and> ycr_fd h < NUM_CONNS" using ok Io_request by simp
      show ?thesis
      proof (cases "ycr_event h = YCR_KIND_READ")
        case True
        then show ?thesis using Some Io_request ok rng
          by (simp add: dispatch_read disconnect_eq kind_of_def)
      next
        case False
        then have "ycr_event h = YCR_KIND_WRITE" using ok Io_request by simp
        then show ?thesis using Some Io_request rng
          by (simp add: dispatch_write disconnect_eq kind_of_def)
      qed
    qed
  qed
  moreover have "\<forall>s'. dispatch c s = Inr s' \<longrightarrow> wf_state s'"
    using inv_dispatch [OF assms] by blast
  ultimately show ?thesis by blast
qed

theorem C8_accept_within_capacity_witness:
  "wf_state (init_state 3) \<and>
   dispatch \<lparr>cqe_user_data = 0, cqe_res = 127\<rparr> (init_state 3) \<noteq> Inl Index_out_of_bounds \<and>
   dispatch \<lparr>cqe_user_data = 0, cqe_res = 127\<rparr> (init_state 3) =
     Inr (step_after \<lparr>cqe_user_data = 0, cqe_res = 127\<rparr> (init_state 3)) \<and>
   wf_state (step_after \<lparr>cqe_user_data = 0, cqe_res = 127\<rparr> (init_state 3))"
proof -
  let ?c = "\<lparr>cqe_user_data = 0, cqe_res = 127\<rparr>"
  have w: "wf_state (init_state 3)" by (rule inv_init)
  note t = C8_table_index_in_range_unless_accept_overflows [OF w, of ?c]
  have "\<not> isl (dispatch ?c (init_state 3))" by code_simp
  then have d: "dispatch ?c (init_state 3) = Inr (step_after ?c (init_state 3))"
    by (rule dispatch_step_after)
  have n: "dispatch ?c (init_state 3) \<noteq> Inl Index_out_of_bounds"
    using t [THEN conjunct1] by simp
  have w': "wf_state (step_after ?c (init_state 3))"
    using t [THEN conjunct2, rule_format, OF d] .
  from w n d w' show ?thesis by blast
qed

text \<open>
  C9. Every completion on a live request is dispatched (short of the two undefined
  cases: an accepted descriptor of 128 or more, and a read result beyond the 1024 bytes
  of the buffer), and the request is then either handed back to the kernel or freed,
  never both and never neither: an accept request, and a read request whose result is
  positive, stays in the heap unchanged and is attached to exactly one of the entries
  submitted in the step (an accept, respectively a read, on its descriptor); in every
  other case (read with result 0 or less, write, close) the request is freed and none of
  the entries submitted in the step carries it.
\<close>

theorem C9_request_rearmed_or_released:
  assumes "wf_state s" "kind_of s c = Some k" "fd_of s c = Some fd"
    "k = YCR_KIND_ACCEPT \<Longrightarrow> cqe_res c < NUM_CONNS"
    "k = YCR_KIND_READ \<Longrightarrow> cqe_res c \<le> IOBUF_SIZE"
  shows "\<exists>s'. dispatch c s = Inr s' \<and>
         ring s' = ring s @ submitted s s' \<and>
         (if k = YCR_KIND_ACCEPT then
            heap s' (cqe_user_data c) = heap s (cqe_user_data c) \<and>
            filter (\<lambda>e. sqe_user_data e = cqe_user_data c) (submitted s s') =
              [Sqe OP_ACCEPT fd (cqe_user_data c)]
          else if k = YCR_KIND_READ \<and> 0 < cqe_res c then
            heap s' (cqe_user_data c) = heap s (cqe_user_data c) \<and>
            filter (\<lambda>e. sqe_user_data e = cqe_user_data c) (submitted s s') =
              [Sqe OP_READV fd (cqe_user_data c)]
          else
            heap s' (cqe_user_data c) = None \<and>
            filter (\<lambda>e. sqe_user_data e = cqe_user_data c) (submitted s s') = [])"
proof -
  from total_step [OF assms(1,2,4,5)] obtain s' where d: "dispatch c s = Inr s'" by blast
  from rearm_or_release_step [OF assms(1) d assms(2,3)] d show ?thesis by blast
qed

theorem C9_rearm_and_release_witness:
  "wf_state (state_after relayed) \<and> wf_state (state_after write_failed) \<and>
   kind_of (state_after relayed) \<lparr>cqe_user_data = 1, cqe_res = 3\<rparr> = Some YCR_KIND_READ \<and>
   fd_of (state_after relayed) \<lparr>cqe_user_data = 1, cqe_res = 3\<rparr> = Some 5 \<and>
   kind_of (state_after relayed) \<lparr>cqe_user_data = 3, cqe_res = - 32\<rparr> = Some YCR_KIND_WRITE \<and>
   fd_of (state_after relayed) \<lparr>cqe_user_data = 3, cqe_res = - 32\<rparr> = Some 5 \<and>
   kind_of (state_after write_failed) \<lparr>cqe_user_data = 4, cqe_res = 0\<rparr> = Some YCR_KIND_CLOSE \<and>
   fd_of (state_after write_failed) \<lparr>cqe_user_data = 4, cqe_res = 0\<rparr> = Some 5 \<and>
   (\<exists>s'. dispatch \<lparr>cqe_user_data = 1, cqe_res = 3\<rparr> (state_after relayed) = Inr s' \<and>
      heap s' 1 = heap (state_after relayed) 1 \<and>
      filter (\<lambda>e. sqe_user_data e = 1) (submitted (state_after relayed) s') =
        [Sqe OP_READV 5 1]) \<and>
   (\<exists>s'. dispatch \<lparr>cqe_user_data = 3, cqe_res = - 32\<rparr> (state_after relayed) = Inr s' \<and>
      heap s' 3 = None \<and>
      filter (\<lambda>e. sqe_user_data e = 3) (submitted (state_after relayed) s') = []) \<and>
   (\<exists>s'. dispatch \<lparr>cqe_user_data = 4, cqe_res = 0\<rparr> (state_after write_failed) = Inr s' \<and>
      heap s' 4 = None \<and>
      filter (\<lambda>e. sqe_user_data e = 4) (submitted (state_after write_failed) s') = [])"
proof -
  let ?s = "state_after relayed" and ?t = "state_after write_failed"
  let ?r = "\<lparr>cqe_user_data = 1, cqe_res = 3\<rparr>"
  let ?w = "\<lparr>cqe_user_data = 3, cqe_res = - 32\<rparr>"
  let ?c = "\<lparr>cqe_user_data = 4, cqe_res = 0\<rparr>"
  have ws: "wf_state ?s" and wt: "wf_state ?t" by (rule wf_state_after)+
  have kr: "kind_of ?s ?r = Some YCR_KIND_READ" by code_simp
  have fr: "fd_of ?s ?r = Some 5" by code_simp
  have kw: "kind_of ?s ?w = Some YCR_KIND_WRITE" by code_simp
  have fw: "fd_of ?s ?w = Some 5" by code_simp
  have kc: "kind_of ?t ?c = Some YCR_KIND_CLOSE" by code_simp
  have fc: "fd_of ?t ?c = Some 5" by code_simp
  note a = C9_request_rearmed_or_released [OF ws kr fr, simplified]
  note b = C9_request_rearmed_or_released [OF ws kw fw, simplified]
  note c = C9_request_rearmed_or_released [OF wt kc fc, simplified]
  from a have a': "\<exists>s'. dispatch ?r ?s = Inr s' \<and> heap s' 1 = heap ?s 1 \<and>
      filter (\<lambda>e. sqe_user_data e = 1) (submitted ?s s') = [Sqe OP_READV 5 1]"
    by auto
  from b have b': "\<exists>s'. dispatch ?w ?s = Inr s' \<and> heap s' 3 = None \<and>
      filter (\<lambda>e. sqe_user_data e = 3) (submitted ?s s') = []"
    by auto
  from c have c': "\<exists>s'. dispatch ?c ?t = Inr s' \<and> heap s' 4 = None \<and>
      filter (\<lambda>e. sqe_user_data e = 4) (submitted ?t s') = []"
    by auto
  from ws wt kr fr kw fw kc fc a' b' c' show ?thesis by blast
qed

text \<open>
  C10. For every write completion with a positive result, whatever length was submitted
  (so also for a short write), the dispatcher frees the write request and does nothing
  else: nothing is submitted, so the unwritten tail is not sent again, and \<open>conns\<close> is
  unchanged, so the destination is neither marked inactive nor closed.
\<close>

theorem C10_positive_write_only_released:
  assumes "kind_of s c = Some YCR_KIND_WRITE" "0 < cqe_res c"
  shows "\<exists>s'. dispatch c s = Inr s' \<and> heap s' = (heap s)(cqe_user_data c := None) \<and>
           submitted s s' = [] \<and> ring s' = ring s \<and> conns s' = conns s"
proof -
  from assms(1) obtain blk where "heap s (cqe_user_data c) = Some blk"
    "ycr_event (hdr blk) = YCR_KIND_WRITE" by (rule kind_of_SomeD)
  then have "dispatch c s = Inr (yc_req_free (cqe_user_data c) s)"
    using assms(2) by (simp add: dispatch_def on_write_def)
  then show ?thesis by (simp add: yc_req_free_def submitted_def)
qed

theorem C10_short_write_witness:
  "kind_of (state_after relayed) \<lparr>cqe_user_data = 3, cqe_res = 1\<rparr> = Some YCR_KIND_WRITE \<and>
   map_option iov_len (vec_of (state_after relayed) 3) = Some 2 \<and>
   (\<exists>s'. dispatch \<lparr>cqe_user_data = 3, cqe_res = 1\<rparr> (state_after relayed) = Inr s' \<and>
      heap s' = (heap (state_after relayed))(3 := None) \<and>
      submitted (state_after relayed) s' = [] \<and>
      active s' 5)"
proof -
  let ?c = "\<lparr>cqe_user_data = 3, cqe_res = 1\<rparr>"
  have k: "kind_of (state_after relayed) ?c = Some YCR_KIND_WRITE" by code_simp
  have r: "0 < cqe_res ?c" by simp
  have v: "map_option iov_len (vec_of (state_after relayed) 3) = Some 2" by code_simp
  have a: "active (state_after relayed) 5" by code_simp
  from C10_positive_write_only_released [OF k r] a k v show ?thesis
    by (auto simp: active_def)
qed

end
